theory Spec2Isabelle
  imports Complex_Main "HOL-Library.Word" "HOL-Library.List_Lexorder"
    "HOL-Library.Product_Lexorder" "HOL-Library.Sublist" "HOL-Library.AList"
begin

unbundle bit_operations_syntax

section \<open>Python values used by the conjecture engine\<close>

text \<open>
  A buffer is a Python byte string. Iterating it yields integers in the range 0..255,
  so a byte is an 8-bit word and a buffer a list of them; byte strings compare
  lexicographically, a proper prefix being smaller (the order of
  \<open>HOL-Library.List_Lexorder\<close>).
\<close>

type_synonym byte = "8 word"
type_synonym buffer = "byte list"

text \<open>The exceptions the modelled code can raise; every one is a value of the model.\<close>

datatype health_check =
  hung_test | data_too_large | filter_too_much | too_slow | large_base_example

datatype error =
  KeyError | IndexError | TypeError | ValueError | AssertionError
  | FailedHealthCheck health_check

subsection \<open>The pseudo-random generator\<close>

text \<open>
  \<open>random.Random\<close> belongs to the Python standard library. It is modelled as the
  stream of the raw numbers it is going to produce: every call of one of its methods
  consumes the head of the stream and reduces it into the requested range. Every value
  of the range is produced by some stream, and theorems quantify over all streams.
\<close>

type_synonym rng = "nat \<Rightarrow> nat"

definition rng_tail :: "rng \<Rightarrow> rng" where
  "rng_tail rnd = (\<lambda>i. rnd (Suc i))"

definition randrange :: "rng \<Rightarrow> nat \<Rightarrow> nat \<Rightarrow> error + (nat \<times> rng)" where
  \<comment> \<open>\<open>rnd.randrange(lo, hi)\<close>: a number of \<open>[lo, hi)\<close>; ValueError on an empty range.\<close>
  "randrange rnd lo hi =
     (if hi \<le> lo then Inl ValueError
      else Inr (lo + rnd 0 mod (hi - lo), rng_tail rnd))"

definition randint :: "rng \<Rightarrow> nat \<Rightarrow> nat \<Rightarrow> error + (nat \<times> rng)" where
  \<comment> \<open>\<open>rnd.randint(a, b)\<close> is \<open>rnd.randrange(a, b + 1)\<close>.\<close>
  "randint rnd a b = randrange rnd a (b + 1)"

definition choice :: "rng \<Rightarrow> 'a list \<Rightarrow> error + ('a \<times> rng)" where
  \<comment> \<open>\<open>rnd.choice(seq)\<close>: IndexError on an empty sequence.\<close>
  "choice rnd xs =
     (if xs = [] then Inl IndexError
      else Inr (xs ! (rnd 0 mod length xs), rng_tail rnd))"

definition getrandbits :: "rng \<Rightarrow> nat \<Rightarrow> nat \<times> rng" where
  "getrandbits rnd k = (rnd 0 mod 2 ^ k, rng_tail rnd)"

definition int_to_bytes :: "nat \<Rightarrow> nat \<Rightarrow> buffer" where
  \<comment> \<open>Modelled from the spec: \<open>int_to_bytes\<close> of \<open>hypothesis.internal.compat\<close> is not
     part of the source at hand; it writes an integer as \<open>n\<close> bytes, most significant
     first.\<close>
  "int_to_bytes v n = map (\<lambda>k. of_nat (v div 256 ^ (n - 1 - k))) [0..<n]"

definition uniform :: "rng \<Rightarrow> nat \<Rightarrow> buffer \<times> rng" where
  "uniform rnd n = (case getrandbits rnd (n * 8) of (v, rnd') \<Rightarrow> (int_to_bytes v n, rnd'))"

definition pop_random :: "rng \<Rightarrow> 'a list \<Rightarrow> error + ('a \<times> 'a list \<times> rng)" where
  \<comment> \<open>Swap the element at a random index with the last one, then pop the last one.\<close>
  "pop_random rnd values =
     (case randrange rnd 0 (length values) of
        Inl e \<Rightarrow> Inl e
      | Inr (i, rnd') \<Rightarrow>
          (let swapped = (values[i := last values])[length values - 1 := values ! i]
           in Inr (last swapped, butlast swapped, rnd')))"


section \<open>Lexicographic predecessor and successor\<close>

text \<open>
  \<open>_draw_predecessor\<close> and \<open>_draw_successor\<close> loop over the bytes of \<open>xs\<close> with
  the flag \<open>any_strict\<close> and append one drawn byte per round. The recursion below is the
  loop from the round at the head of the list on; the byte of the round is put in front
  of the bytes of the later rounds.
\<close>

fun draw_predecessor_from :: "rng \<Rightarrow> bool \<Rightarrow> buffer \<Rightarrow> error + (buffer \<times> rng)" where
  "draw_predecessor_from rnd any_strict [] = Inr ([], rnd)"
| "draw_predecessor_from rnd any_strict (x # xs) =
     (if \<not> any_strict then
        (case randint rnd 0 (unat x) of
           Inl e \<Rightarrow> Inl e
         | Inr (c, rnd') \<Rightarrow>
             (case draw_predecessor_from rnd' (if c < unat x then True else any_strict) xs of
                Inl e \<Rightarrow> Inl e
              | Inr (r, rnd'') \<Rightarrow> Inr (of_nat c # r, rnd'')))
      else
        (case randint rnd 0 255 of
           Inl e \<Rightarrow> Inl e
         | Inr (c, rnd') \<Rightarrow>
             (case draw_predecessor_from rnd' any_strict xs of
                Inl e \<Rightarrow> Inl e
              | Inr (r, rnd'') \<Rightarrow> Inr (of_nat c # r, rnd''))))"

definition draw_predecessor :: "rng \<Rightarrow> buffer \<Rightarrow> error + (buffer \<times> rng)" where
  "draw_predecessor rnd xs = draw_predecessor_from rnd False xs"

fun draw_successor_from :: "rng \<Rightarrow> bool \<Rightarrow> buffer \<Rightarrow> error + (buffer \<times> rng)" where
  "draw_successor_from rnd any_strict [] = Inr ([], rnd)"
| "draw_successor_from rnd any_strict (x # xs) =
     (if \<not> any_strict then
        (case randint rnd (unat x) 255 of
           Inl e \<Rightarrow> Inl e
         | Inr (c, rnd') \<Rightarrow>
             (case draw_successor_from rnd' (if c > unat x then True else any_strict) xs of
                Inl e \<Rightarrow> Inl e
              | Inr (r, rnd'') \<Rightarrow> Inr (of_nat c # r, rnd'')))
      else
        (case randint rnd 0 255 of
           Inl e \<Rightarrow> Inl e
         | Inr (c, rnd') \<Rightarrow>
             (case draw_successor_from rnd' any_strict xs of
                Inl e \<Rightarrow> Inl e
              | Inr (r, rnd'') \<Rightarrow> Inr (of_nat c # r, rnd''))))"

definition draw_successor :: "rng \<Rightarrow> buffer \<Rightarrow> error + (buffer \<times> rng)" where
  "draw_successor rnd xs = draw_successor_from rnd False xs"

section \<open>Data model\<close>

datatype status = OVERRUN | INVALID | VALID | INTERESTING

fun status_value :: "status \<Rightarrow> nat" where
  \<comment> \<open>\<open>Status\<close> is an integer enumeration, compared by value.\<close>
  "status_value OVERRUN = 0"
| "status_value INVALID = 1"
| "status_value VALID = 2"
| "status_value INTERESTING = 3"

datatype exit_reason =
  Max_examples | Max_iterations | Timeout | Max_shrinks | Finished | Flaky

datatype phase = reuse | generate | shrink

text \<open>
  Modelled from the spec: \<open>ConjectureData\<close> lives in \<open>conjecture/data.py\<close>, which is
  not part of the source at hand. A value of \<open>data\<close> is a frozen data object: the
  buffer it produced, its status, the forced positions, the mask of each masked position,
  the block bounds (\<open>all_block_bounds()\<close>), the starts of its blocks by block length
  (\<open>block_starts\<close>), the origin of an interesting result and the draw times.
\<close>

record data =
  buffer :: buffer
  status :: status
  forced_indices :: "nat set"
  masked_indices :: "nat \<rightharpoonup> nat"
  block_bounds :: "(nat \<times> nat) list"
  block_starts :: "nat \<rightharpoonup> nat list"
  interesting_origin :: string
  draw_times :: "real list"

text \<open>
  \<open>sort_key\<close> belongs to \<open>conjecture/shrinker.py\<close>. Modelled from the spec:
  \<open>sort_key(buffer) = (length, buffer)\<close>, shorter first, ties broken lexicographically.
\<close>

definition sort_key_buffer :: "buffer \<Rightarrow> nat \<times> buffer" where
  "sort_key_buffer b = (length b, b)"

text \<open>
  The settings the engine reads. The database is a collaborator; what the engine fetches
  under its three keys is a field of the model, what it saves, moves or deletes is not
  modelled. Modelled from the spec: \<open>fail_health_check\<close> either raises or records; it
  raises unless the kind is listed in \<open>suppress_health_check\<close>.
\<close>

record database =
  primary_corpus :: "buffer list"
  secondary_corpus :: "buffer list"
  covering_corpus :: "buffer list"

record settings =
  max_examples :: nat
  buffer_size :: nat
  timeout :: real
  phases :: "phase set"
  database :: "database option"
  suppress_health_check :: "health_check set"

definition fail_health_check :: "settings \<Rightarrow> health_check \<Rightarrow> error + unit" where
  "fail_health_check st kind =
     (if kind \<in> suppress_health_check st then Inr () else Inl (FailedHealthCheck kind))"

definition HUNG_TEST_TIME_LIMIT :: real where "HUNG_TEST_TIME_LIMIT = 5 * 60"
definition MAX_SHRINKS :: nat where "MAX_SHRINKS = 500"
definition CACHE_RESET_FREQUENCY :: nat where "CACHE_RESET_FREQUENCY = 1000"
definition MUTATION_POOL_SIZE :: nat where "MUTATION_POOL_SIZE = 100"

record health_check_state =
  hc_valid_examples :: nat
  hc_invalid_examples :: nat
  hc_overrun_examples :: nat
  hc_draw_times :: "real list"

definition HealthCheckState :: health_check_state where
  "HealthCheckState = \<lparr>hc_valid_examples = 0, hc_invalid_examples = 0,
     hc_overrun_examples = 0, hc_draw_times = []\<rparr>"

text \<open>A node of the prefix tree: a branch (a dictionary from bytes to node indices) or a
  leaf (the data object stored there).\<close>

datatype node = Branch "byte \<rightharpoonup> nat" | Leaf data

record target_selector =
  best_status :: status
  pool_size :: nat
  fresh_examples :: "data list"
  used_examples :: "data list"

text \<open>
  The state of a \<open>ConjectureRunner\<close>. The selector shares the runner's generator, which
  is the field \<open>random_state\<close>. The dictionary of interesting examples keeps insertion
  order, so it is an association list. The statistics written by \<open>note_details\<close> and the
  debug output are left out; \<open>exit_reason\<close> is absent until \<open>exit_with\<close> sets it.
\<close>

record runner =
  settings :: settings
  shrinks :: nat
  call_count :: nat
  valid_examples :: nat
  start_time :: real
  random_state :: rng
  database_key :: "string option"
  target_selector :: target_selector
  interesting_examples :: "(string \<times> data) list"
  shrunk_examples :: "string set"
  health_check_state :: "health_check_state option"
  used_examples_from_database :: bool
  exit_reason :: "exit_reason option"
  tree :: "node list"
  dead :: "nat set"
  forced :: "nat \<rightharpoonup> byte"
  masks :: "nat \<rightharpoonup> nat"
  block_sizes :: "nat \<rightharpoonup> int"

section \<open>Target selector\<close>

definition TargetSelector :: "nat \<Rightarrow> target_selector" where
  "TargetSelector n = \<lparr>best_status = OVERRUN, pool_size = n,
     fresh_examples = [], used_examples = []\<rparr>"

definition selector_len :: "target_selector \<Rightarrow> nat" where
  "selector_len sel = length (fresh_examples sel) + length (used_examples sel)"

definition reset :: "target_selector \<Rightarrow> target_selector" where
  "reset sel = sel\<lparr>fresh_examples := [], used_examples := []\<rparr>"

definition add :: "rng \<Rightarrow> data \<Rightarrow> target_selector \<Rightarrow> error + (target_selector \<times> rng)" where
  "add rnd d sel =
     (if status d = INTERESTING then Inr (sel, rnd)
      else if status_value (status d) < status_value (best_status sel) then Inr (sel, rnd)
      else
        (let sel1 = (if status_value (status d) > status_value (best_status sel)
                     then reset (sel\<lparr>best_status := status d\<rparr>) else sel);
             sel2 = sel1\<lparr>fresh_examples := fresh_examples sel1 @ [d]\<rparr>
         in if selector_len sel2 > pool_size sel2 then
              (case (if used_examples sel2 \<noteq> []
                     then (case pop_random rnd (used_examples sel2) of
                             Inl e \<Rightarrow> Inl e
                           | Inr (x, rest, rnd') \<Rightarrow> Inr (sel2\<lparr>used_examples := rest\<rparr>, rnd'))
                     else (case pop_random rnd (fresh_examples sel2) of
                             Inl e \<Rightarrow> Inl e
                           | Inr (x, rest, rnd') \<Rightarrow> Inr (sel2\<lparr>fresh_examples := rest\<rparr>, rnd'))) of
                 Inl e \<Rightarrow> Inl e
               | Inr (sel3, rnd') \<Rightarrow>
                   if pool_size sel3 = selector_len sel3 then Inr (sel3, rnd')
                   else Inl AssertionError)
            else Inr (sel2, rnd)))"

definition select :: "rng \<Rightarrow> target_selector \<Rightarrow> error + (data \<times> target_selector \<times> rng)" where
  "select rnd sel =
     (if fresh_examples sel \<noteq> [] then
        (case pop_random rnd (fresh_examples sel) of
           Inl e \<Rightarrow> Inl e
         | Inr (result, rest, rnd') \<Rightarrow>
             Inr (result,
                  sel\<lparr>fresh_examples := rest, used_examples := used_examples sel @ [result]\<rparr>,
                  rnd'))
      else
        (case choice rnd (used_examples sel) of
           Inl e \<Rightarrow> Inl e
         | Inr (result, rnd') \<Rightarrow> Inr (result, sel, rnd')))"

text \<open>A sequence of calls on a selector; it stops at the first exception.\<close>

datatype selector_call = Add data | Select

fun selector_calls ::
  "selector_call list \<Rightarrow> rng \<Rightarrow> target_selector \<Rightarrow> error + (target_selector \<times> rng)" where
  "selector_calls [] rnd sel = Inr (sel, rnd)"
| "selector_calls (Add d # calls) rnd sel =
     (case add rnd d sel of
        Inl e \<Rightarrow> Inl e
      | Inr (sel', rnd') \<Rightarrow> selector_calls calls rnd' sel')"
| "selector_calls (Select # calls) rnd sel =
     (case select rnd sel of
        Inl e \<Rightarrow> Inl e
      | Inr (result, sel', rnd') \<Rightarrow> selector_calls calls rnd' sel')"

section \<open>The mutator's \<open>reuse_existing\<close>\<close>

text \<open>
  \<open>reuse_existing\<close> is a closure of \<open>_new_mutator\<close>: \<open>target_data\<close> is the origin the
  mutator was started from and is in its scope, \<open>d\<close> is the data object that is being
  drawn. The body reads \<open>d\<close> only.
\<close>

definition reuse_existing :: "data \<Rightarrow> rng \<Rightarrow> data \<Rightarrow> nat \<Rightarrow> error + (buffer \<times> rng)" where
  "reuse_existing target_data rnd d n =
     (let choices = (case block_starts d n of Some starts \<Rightarrow> starts | None \<Rightarrow> [])
      in if choices \<noteq> [] then
           (case choice rnd choices of
              Inl e \<Rightarrow> Inl e
            | Inr (i, rnd') \<Rightarrow> Inr (take n (drop i (buffer d)), rnd'))
         else Inr (uniform rnd n))"

section \<open>The runner and its prefix tree\<close>

definition reset_tree_to_empty :: "runner \<Rightarrow> runner" where
  "reset_tree_to_empty s =
     s\<lparr>tree := [Branch Map.empty], dead := {}, forced := Map.empty, masks := Map.empty,
       block_sizes := Map.empty\<rparr>"

definition ConjectureRunner :: "settings \<Rightarrow> rng \<Rightarrow> string option \<Rightarrow> real \<Rightarrow> runner" where
  \<comment> \<open>\<open>__init__\<close>; the last argument is the clock's reading at that moment.\<close>
  "ConjectureRunner st rnd key now =
     reset_tree_to_empty
       \<lparr>settings = st, shrinks = 0, call_count = 0, valid_examples = 0, start_time = now,
        random_state = rnd, database_key = key,
        target_selector = TargetSelector MUTATION_POOL_SIZE,
        interesting_examples = [], shrunk_examples = {}, health_check_state = None,
        used_examples_from_database = False, exit_reason = None,
        tree = [], dead = {}, forced = Map.empty, masks = Map.empty,
        block_sizes = Map.empty\<rparr>"

definition cap :: "runner \<Rightarrow> nat" where
  "cap s = buffer_size (settings s) div 2"

definition is_simple_mask :: "nat \<Rightarrow> bool" where
  "is_simple_mask m = (m AND (m + 1) = 0)"

definition tree_node :: "runner \<Rightarrow> nat \<Rightarrow> error + (byte \<rightharpoonup> nat)" where
  \<comment> \<open>\<open>self.tree[node]\<close> read as a dictionary: IndexError past the end of the list, and
     TypeError when a leaf is subscripted or measured.\<close>
  "tree_node s n =
     (if length (tree s) \<le> n then Inl IndexError
      else case tree s ! n of Leaf d \<Rightarrow> Inl TypeError | Branch children \<Rightarrow> Inr children)"

definition tree_child :: "runner \<Rightarrow> nat \<Rightarrow> byte \<Rightarrow> error + nat" where
  \<comment> \<open>\<open>self.tree[node][b]\<close>\<close>
  "tree_child s n b =
     (case tree_node s n of
        Inl e \<Rightarrow> Inl e
      | Inr children \<Rightarrow> (case children b of None \<Rightarrow> Inl KeyError | Some k \<Rightarrow> Inr k))"

definition int_key :: "(byte \<rightharpoonup> nat) \<Rightarrow> nat \<Rightarrow> nat option" where
  \<comment> \<open>A dictionary keyed by bytes, asked for a Python integer.\<close>
  "int_key children c = (if c < 256 then children (of_nat c) else None)"

definition tree_child_int :: "runner \<Rightarrow> nat \<Rightarrow> nat \<Rightarrow> error + nat" where
  "tree_child_int s n c =
     (case tree_node s n of
        Inl e \<Rightarrow> Inl e
      | Inr children \<Rightarrow> (case int_key children c of None \<Rightarrow> Inl KeyError | Some k \<Rightarrow> Inr k))"

definition rewrite_byte :: "runner \<Rightarrow> nat \<Rightarrow> byte \<Rightarrow> byte" where
  \<comment> \<open>The byte that \<open>prescreen_buffer\<close> and \<open>cached_test_function\<close> look up at a node:
     the forced value if there is one, then the mask if there is one.\<close>
  "rewrite_byte s n b =
     (let b1 = (case forced s n of Some f \<Rightarrow> f | None \<Rightarrow> b)
      in case masks s n of Some m \<Rightarrow> of_nat (unat b1 AND m) | None \<Rightarrow> b1)"

subsection \<open>Recording a result in the tree\<close>

text \<open>
  The first loop of \<open>test_function\<close> over the tree, in three parts. \<open>note_position\<close>
  marks the node of position \<open>i\<close> as forced or masked; \<open>descend\<close> finds the node of
  the byte or creates it; \<open>tree_walk\<close> is the loop, where \<open>i\<close> is the position in the
  buffer and the list holds the bytes from there on. It returns the final
  \<open>node_index\<close> and the list \<open>indices\<close>.
\<close>

definition note_position :: "data \<Rightarrow> nat \<Rightarrow> byte \<Rightarrow> nat \<Rightarrow> runner \<Rightarrow> runner" where
  "note_position d i b node_index s =
     (let s1 = (if i \<in> forced_indices d then s\<lparr>forced := (forced s)(node_index \<mapsto> b)\<rparr>
                else s)
      in case masked_indices d i of
           Some m \<Rightarrow> s1\<lparr>masks := (masks s1)(node_index \<mapsto> m)\<rparr>
         | None \<Rightarrow> s1)"

definition descend :: "byte \<Rightarrow> nat \<Rightarrow> runner \<Rightarrow> error + (nat \<times> runner)" where
  "descend b node_index s =
     (case tree_node s node_index of
        Inl e \<Rightarrow> Inl e
      | Inr children \<Rightarrow>
          (let (node_index', s') =
                 (case children b of
                    Some k \<Rightarrow> (k, s)
                  | None \<Rightarrow>
                      (length (tree s),
                       s\<lparr>tree := (tree s @ [Branch Map.empty])
                             [node_index := Branch (children(b \<mapsto> length (tree s)))]\<rparr>))
           in if length (tree s') \<le> node_index' then Inl IndexError
              else Inr (node_index', s')))"

fun tree_walk ::
  "data \<Rightarrow> nat \<Rightarrow> buffer \<Rightarrow> nat \<Rightarrow> nat list \<Rightarrow> runner \<Rightarrow> error + (nat \<times> nat list \<times> runner)" where
  "tree_walk d i [] node_index indices s = Inr (node_index, indices, s)"
| "tree_walk d i (b # bs) node_index indices s =
     (case descend b node_index (note_position d i b node_index s) of
        Inl e \<Rightarrow> Inl e
      | Inr (node_index', s') \<Rightarrow>
          if node_index' \<in> dead s' then Inr (node_index', indices @ [node_index], s')
          else tree_walk d (i + 1) bs node_index' (indices @ [node_index]) s')"

fun record_block_sizes :: "(nat \<times> nat) list \<Rightarrow> nat list \<Rightarrow> runner \<Rightarrow> runner" where
  "record_block_sizes [] indices s = s"
| "record_block_sizes ((u, v) # bounds) indices s =
     (if u \<ge> length indices then s
      else record_block_sizes bounds indices
             (s\<lparr>block_sizes := (block_sizes s)(indices ! u \<mapsto> int v - int u)\<rparr>))"

text \<open>The loop over \<open>reversed(indices)\<close>; the argument is the reversed list.\<close>

fun mark_dead :: "nat list \<Rightarrow> runner \<Rightarrow> error + runner" where
  "mark_dead [] s = Inr s"
| "mark_dead (j # js) s =
     (let msk = (case masks s j of Some m \<Rightarrow> m | None \<Rightarrow> 255)
      in if \<not> is_simple_mask msk then Inl AssertionError
         else
           (let max_size = msk + 1
            in case tree_node s j of
                 Inl e \<Rightarrow> Inl e
               | Inr children \<Rightarrow>
                   if card (dom children) < max_size \<and> j \<notin> dom (forced s) then Inr s
                   else if ran children \<subseteq> dead s
                     then mark_dead js (s\<lparr>dead := insert j (dead s)\<rparr>)
                   else Inr s))"

definition update_tree :: "data \<Rightarrow> runner \<Rightarrow> error + runner" where
  "update_tree d s =
     (if tree s = [] then Inl IndexError
      else case tree_walk d 0 (buffer d) 0 [] s of
        Inl e \<Rightarrow> Inl e
      | Inr (node_index, indices, s1) \<Rightarrow>
          (let s2 = record_block_sizes (block_bounds d) indices s1;
               s3 = s2\<lparr>dead := dead s2 \<union> set (drop (cap s2) indices)\<rparr>
           in if status d \<noteq> OVERRUN \<and> node_index \<notin> dead s3
              then mark_dead (rev indices)
                     (s3\<lparr>dead := insert node_index (dead s3),
                         tree := (tree s3)[node_index := Leaf d]\<rparr>)
              else Inr s3))"

subsection \<open>The rest of \<open>test_function\<close>\<close>

definition update_interesting :: "data \<Rightarrow> runner \<Rightarrow> runner" where
  \<comment> \<open>The bookkeeping of an interesting result, up to the check of \<open>MAX_SHRINKS\<close>.\<close>
  "update_interesting d s =
     (if status d = INTERESTING then
        (let key = interesting_origin d
         in case map_of (interesting_examples s) key of
              None \<Rightarrow>
                s\<lparr>interesting_examples := AList.update key d (interesting_examples s),
                  shrunk_examples := shrunk_examples s - {key}\<rparr>
            | Some existing \<Rightarrow>
                if sort_key_buffer (buffer d) < sort_key_buffer (buffer existing)
                then s\<lparr>shrinks := shrinks s + 1,
                       interesting_examples := AList.update key d (interesting_examples s),
                       shrunk_examples := shrunk_examples s - {key}\<rparr>
                else s)
      else s)"

text \<open>
  A call either returns or raises \<open>RunIsComplete\<close> through \<open>exit_with\<close>; both leave a
  state behind. The clock is read twice in \<open>test_function\<close>: before the hung-test check
  and at the timeout check.
\<close>

datatype 'a outcome = Returned 'a | RunIsComplete

record clock =
  time_at_start :: real
  time_at_end :: real

definition exit_with :: "exit_reason \<Rightarrow> runner \<Rightarrow> 'a outcome \<times> runner" where
  "exit_with reason s = (RunIsComplete, s\<lparr>exit_reason := Some reason\<rparr>)"

definition tree_is_exhausted :: "runner \<Rightarrow> bool" where
  "tree_is_exhausted s = (0 \<in> dead s)"

definition check_exit :: "clock \<Rightarrow> data \<Rightarrow> runner \<Rightarrow> exit_reason option" where
  \<comment> \<open>The calls of \<open>exit_with\<close> in \<open>test_function\<close>, in the order of the source.\<close>
  "check_exit clk d s =
     (if status d = INTERESTING \<and> shrinks s \<ge> MAX_SHRINKS then Some Max_shrinks
      else if timeout (settings s) > 0
              \<and> time_at_end clk \<ge> start_time s + timeout (settings s) then Some Timeout
      else if interesting_examples s = [] \<and> valid_examples s \<ge> max_examples (settings s)
        then Some Max_examples
      else if interesting_examples s = []
              \<and> call_count s \<ge> max (max_examples (settings s) * 10) 1000
        then Some Max_iterations
      else if tree_is_exhausted s then Some Finished
      else None)"

definition record_for_health_check :: "data \<Rightarrow> runner \<Rightarrow> error + runner" where
  "record_for_health_check d s =
     (let s1 = (if status d = INTERESTING then s\<lparr>health_check_state := None\<rparr> else s)
      in case health_check_state s1 of
           None \<Rightarrow> Inr s1
         | Some state \<Rightarrow>
             (let state1 = state\<lparr>hc_draw_times := hc_draw_times state @ draw_times d\<rparr>;
                  state2 =
                    (if status d = VALID
                       then state1\<lparr>hc_valid_examples := hc_valid_examples state1 + 1\<rparr>
                     else if status d = INVALID
                       then state1\<lparr>hc_invalid_examples := hc_invalid_examples state1 + 1\<rparr>
                     else state1\<lparr>hc_overrun_examples := hc_overrun_examples state1 + 1\<rparr>);
                  s2 = s1\<lparr>health_check_state := Some state2\<rparr>
              in if status d \<noteq> VALID \<and> status d \<noteq> INVALID \<and> status d \<noteq> OVERRUN
                   then Inl AssertionError
                 else if \<not> hc_valid_examples state2 \<le> 10 then Inl AssertionError
                 else if hc_valid_examples state2 = 10
                   then Inr (s2\<lparr>health_check_state := None\<rparr>)
                 else
                   (case (if hc_overrun_examples state2 = 20
                          then fail_health_check (settings s2) data_too_large else Inr ()) of
                      Inl e \<Rightarrow> Inl e
                    | Inr u \<Rightarrow>
                       (case (if hc_invalid_examples state2 = 50
                              then fail_health_check (settings s2) filter_too_much
                              else Inr ()) of
                          Inl e \<Rightarrow> Inl e
                        | Inr u \<Rightarrow>
                           (case (if sum_list (hc_draw_times state2) > 1
                                  then fail_health_check (settings s2) too_slow
                                  else Inr ()) of
                              Inl e \<Rightarrow> Inl e
                            | Inr u \<Rightarrow> Inr s2)))))"

definition record_result :: "data \<Rightarrow> runner \<Rightarrow> error + runner" where
  \<comment> \<open>From \<open>self.target_selector.add(data)\<close> to the bookkeeping of interesting results.\<close>
  "record_result d s =
     (case add (random_state s) d (target_selector s) of
        Inl e \<Rightarrow> Inl e
      | Inr (sel, rnd) \<Rightarrow>
          (let s1 = s\<lparr>target_selector := sel, random_state := rnd\<rparr>;
               s2 = (if status d = VALID
                     then s1\<lparr>valid_examples := valid_examples s1 + 1\<rparr> else s1);
               s3 = (if call_count s2 mod CACHE_RESET_FREQUENCY = 0
                        \<and> interesting_examples s2 = []
                     then reset_tree_to_empty s2 else s2)
           in case update_tree d s3 of
                Inl e \<Rightarrow> Inl e
              | Inr s4 \<Rightarrow> Inr (update_interesting d s4)))"

text \<open>
  \<open>test_function\<close>, given the frozen data object that the user's test function left.
  An exception of the user's test function is not a case of the model.
\<close>

definition test_function :: "clock \<Rightarrow> data \<Rightarrow> runner \<Rightarrow> error + (unit outcome \<times> runner)" where
  "test_function clk d s =
     (case (if time_at_start clk - start_time s \<ge> HUNG_TEST_TIME_LIMIT
            then fail_health_check (settings s) hung_test else Inr ()) of
        Inl e \<Rightarrow> Inl e
      | Inr u \<Rightarrow>
          (case record_result d (s\<lparr>call_count := call_count s + 1\<rparr>) of
             Inl e \<Rightarrow> Inl e
           | Inr s1 \<Rightarrow>
               (case check_exit clk d s1 of
                  Some reason \<Rightarrow> Inr (exit_with reason s1)
                | None \<Rightarrow>
                    (case record_for_health_check d s1 of
                       Inl e \<Rightarrow> Inl e
                     | Inr s2 \<Rightarrow> Inr (Returned (), s2)))))"

section \<open>Novel prefixes\<close>

text \<open>
  One round of the \<open>while True\<close> loop of \<open>generate_novel_prefix\<close>: it raises, or
  leaves the loop with the prefix, or goes on from a child with a longer prefix.
  \<open>bytearray.append\<close> raises ValueError for a number above 255.
\<close>

datatype novel = Raise error | Novel buffer rng | Descend buffer nat rng

definition append_break :: "buffer \<Rightarrow> nat \<Rightarrow> rng \<Rightarrow> novel" where
  "append_break pfx c rnd =
     (if c < 256 then Novel (pfx @ [of_nat c]) rnd else Raise ValueError)"

definition append_descend :: "buffer \<Rightarrow> nat \<Rightarrow> nat \<Rightarrow> rng \<Rightarrow> novel" where
  "append_descend pfx c n rnd =
     (if c < 256 then Descend (pfx @ [of_nat c]) n rnd else Raise ValueError)"

definition live_choices :: "runner \<Rightarrow> nat \<Rightarrow> nat \<Rightarrow> nat list" where
  \<comment> \<open>\<open>[b for b in hrange(upper_bound) if self.tree[node].get(b) not in self.dead]\<close>\<close>
  "live_choices s n upper_bound =
     filter (\<lambda>b. case tree_node s n of
                    Inl e \<Rightarrow> False
                  | Inr children \<Rightarrow>
                      (case int_key children b of None \<Rightarrow> True | Some k \<Rightarrow> k \<notin> dead s))
       [0..<upper_bound]"

definition draw_unforced :: "runner \<Rightarrow> rng \<Rightarrow> buffer \<Rightarrow> nat \<Rightarrow> nat \<Rightarrow> novel" where
  \<comment> \<open>From \<open>c = self.random.randrange(0, upper_bound)\<close> to the end of the round.\<close>
  "draw_unforced s rnd pfx n upper_bound =
     (case randrange rnd 0 upper_bound of
        Inl e \<Rightarrow> Raise e
      | Inr (c, rnd1) \<Rightarrow>
          (let found = tree_child_int s n c
           in if found = Inl KeyError then append_break pfx c rnd1
              else case found of
                Inl e \<Rightarrow> Raise e
              | Inr next_node \<Rightarrow>
                  if next_node \<in> dead s then
                    (let choices = live_choices s n upper_bound
                     in if choices = [] then Raise AssertionError
                        else case choice rnd1 choices of
                          Inl e \<Rightarrow> Raise e
                        | Inr (c', rnd2) \<Rightarrow>
                            (let found' = tree_child_int s n c'
                             in if found' = Inl KeyError then append_break pfx c' rnd2
                                else case found' of
                                  Inl e \<Rightarrow> Raise e
                                | Inr n' \<Rightarrow> append_descend pfx c' n' rnd2))
                  else append_descend pfx c next_node rnd1))"

definition novel_round :: "runner \<Rightarrow> rng \<Rightarrow> buffer \<Rightarrow> nat \<Rightarrow> novel" where
  "novel_round s rnd pfx n =
     (if \<not> length pfx < cap s then Raise AssertionError
      else if n \<in> dead s then Raise AssertionError
      else
        (let msk = (case masks s n of Some m \<Rightarrow> m | None \<Rightarrow> 255)
         in if \<not> is_simple_mask msk then Raise AssertionError
            else
              (let upper_bound = msk + 1
               in case forced s n of
                    Some c \<Rightarrow>
                      (let found = tree_child s n c
                       in if found = Inl KeyError
                            then draw_unforced s rnd (pfx @ [c]) n upper_bound
                          else case found of
                            Inl e \<Rightarrow> Raise e
                          | Inr n' \<Rightarrow> Descend (pfx @ [c]) n' rnd)
                  | None \<Rightarrow> draw_unforced s rnd pfx n upper_bound)))"

lemma novel_round_Descend:
  "novel_round s rnd pfx n = Descend p k r \<Longrightarrow> length pfx < cap s \<and> length pfx < length p"
  by (auto simp: novel_round_def draw_unforced_def append_break_def append_descend_def Let_def
      split: if_splits option.splits sum.splits prod.splits)

function generate_novel_prefix_from ::
  "runner \<Rightarrow> rng \<Rightarrow> buffer \<Rightarrow> nat \<Rightarrow> error + (buffer \<times> rng)" where
  "generate_novel_prefix_from s rnd pfx n =
     (case novel_round s rnd pfx n of
        Raise e \<Rightarrow> Inl e
      | Novel p r \<Rightarrow> (if n \<in> dead s then Inl AssertionError else Inr (p, r))
      | Descend p k r \<Rightarrow> generate_novel_prefix_from s r p k)"
  by pat_completeness auto
termination
  by (relation "measure (\<lambda>(s, rnd, pfx, n). cap s - length pfx)")
    (auto dest: novel_round_Descend)

definition generate_novel_prefix :: "runner \<Rightarrow> error + (buffer \<times> runner)" where
  "generate_novel_prefix s =
     (case generate_novel_prefix_from s (random_state s) [] 0 of
        Inl e \<Rightarrow> Inl e
      | Inr (pfx, rnd) \<Rightarrow> Inr (pfx, s\<lparr>random_state := rnd\<rparr>))"

section \<open>Prescreening and the cached test function\<close>

text \<open>The loop of \<open>prescreen_buffer\<close>: \<open>n\<close> is the length of the whole buffer, \<open>k\<close> the
  position, the list the bytes from there on.\<close>

fun prescreen_from :: "runner \<Rightarrow> nat \<Rightarrow> nat \<Rightarrow> nat \<Rightarrow> buffer \<Rightarrow> error + bool" where
  "prescreen_from s n k node_index [] = Inr False"
| "prescreen_from s n k node_index (b # bs) =
     (if node_index \<in> dead s then Inr False
      else if (case block_sizes s node_index of
                 Some sz \<Rightarrow> int k + sz > int n
               | None \<Rightarrow> False) then Inr False
      else
        (let found = tree_child s node_index (rewrite_byte s node_index b)
         in if found = Inl KeyError then Inr True
            else case found of
              Inl e \<Rightarrow> Inl e
            | Inr node_index' \<Rightarrow> prescreen_from s n (k + 1) node_index' bs))"

definition prescreen_buffer :: "runner \<Rightarrow> buffer \<Rightarrow> error + bool" where
  "prescreen_buffer s b = prescreen_from s (length b) 0 0 b"

text \<open>The loop of \<open>cached_test_function\<close>: the stored leaf it returns, or nothing when
  the loop is left by \<open>break\<close> or runs off the end of the buffer.\<close>

fun cached_lookup_from :: "runner \<Rightarrow> nat \<Rightarrow> buffer \<Rightarrow> error + data option" where
  "cached_lookup_from s node_index [] = Inr None"
| "cached_lookup_from s node_index (c # cs) =
     (let found = tree_child s node_index (rewrite_byte s node_index c)
      in if found = Inl KeyError then Inr None
         else case found of
           Inl e \<Rightarrow> Inl e
         | Inr node_index' \<Rightarrow>
             if length (tree s) \<le> node_index' then Inl IndexError
             else case tree s ! node_index' of
               Leaf d \<Rightarrow> Inr (Some d)
             | Branch children \<Rightarrow> cached_lookup_from s node_index' cs)"

definition cached_lookup :: "runner \<Rightarrow> buffer \<Rightarrow> error + data option" where
  "cached_lookup s b = cached_lookup_from s 0 b"

text \<open>
  What lies outside the runner: the user's test function, as the frozen data object it
  leaves when it is run on \<open>ConjectureData.for_buffer(b)\<close> in the call with a given
  number (it may be flaky, so the number matters), the clock's readings during that
  call, and the floating-point unit: \<open>ceil_tenth n\<close> stands for the integer that Python
  computes for \<open>ceil(0.1 * n)\<close> in binary floating point. The model does not compute
  that number; the theorems hold whatever it is.
\<close>

record environment =
  run_test :: "nat \<Rightarrow> buffer \<Rightarrow> data"
  clock_of :: "nat \<Rightarrow> clock"
  ceil_tenth :: "nat \<Rightarrow> nat"

definition replay :: "environment \<Rightarrow> buffer \<Rightarrow> runner \<Rightarrow> error + (data outcome \<times> runner)" where
  \<comment> \<open>\<open>data = ConjectureData.for_buffer(b); self.test_function(data)\<close>\<close>
  "replay env b s =
     (let result = run_test env (call_count s) b
      in case test_function (clock_of env (call_count s)) result s of
           Inl e \<Rightarrow> Inl e
         | Inr (RunIsComplete, s') \<Rightarrow> Inr (RunIsComplete, s')
         | Inr (Returned u, s') \<Rightarrow> Inr (Returned result, s'))"

definition cached_test_function ::
  "environment \<Rightarrow> buffer \<Rightarrow> runner \<Rightarrow> error + (data outcome \<times> runner)" where
  "cached_test_function env b s =
     (case cached_lookup s b of
        Inl e \<Rightarrow> Inl e
      | Inr (Some d) \<Rightarrow> Inr (Returned d, s)
      | Inr None \<Rightarrow> replay env b s)"

section \<open>Reusing examples from the database\<close>







section \<open>Confirming the interesting examples before shrinking\<close>

text \<open>The first loop of \<open>shrink_interesting_examples\<close>, over the stored examples sorted
  by the sort key of their buffers.\<close>

fun replay_interesting :: "environment \<Rightarrow> data list \<Rightarrow> runner \<Rightarrow> error + (unit outcome \<times> runner)" where
  "replay_interesting env [] s = Inr (Returned (), s)"
| "replay_interesting env (prev_data # rest) s =
     (if status prev_data \<noteq> INTERESTING then Inl AssertionError
      else case replay env (buffer prev_data) s of
        Inl e \<Rightarrow> Inl e
      | Inr (RunIsComplete, s') \<Rightarrow> Inr (RunIsComplete, s')
      | Inr (Returned d, s') \<Rightarrow>
          if status d \<noteq> INTERESTING then Inr (exit_with Flaky s')
          else replay_interesting env rest s')"

definition confirm_interesting_examples ::
  "environment \<Rightarrow> runner \<Rightarrow> error + (unit outcome \<times> runner)" where
  \<comment> \<open>\<open>shrink_interesting_examples\<close> up to the call of \<open>clear_secondary_key\<close>.\<close>
  "confirm_interesting_examples env s =
     (if shrink \<notin> phases (settings s) \<or> interesting_examples s = [] then Inr (Returned (), s)
      else replay_interesting env
             (sort_key (\<lambda>d. sort_key_buffer (buffer d)) (map snd (interesting_examples s))) s)"

section \<open>Reachable states\<close>

text \<open>
  The states a runner goes through: it starts from \<open>__init__\<close>, and every call of
  \<open>test_function\<close> that does not end in a Python exception leaves the next state,
  whatever data object the test function produced and whatever the clock showed.
  The other rules are the writes of the runner outside \<open>test_function\<close>: the generator
  is consumed (\<open>generate_novel_prefix\<close>, the mutator, \<open>random.sample\<close> and
  \<open>random.shuffle\<close>), the selector hands out an origin, \<open>generate_new_examples\<close>
  starts the health checks, \<open>reuse_existing_examples\<close> sets
  \<open>used_examples_from_database\<close>, \<open>shrink_interesting_examples\<close> adds a key to
  \<open>shrunk_examples\<close>, \<open>_run\<close> sets \<open>start_time\<close>, and \<open>exit_with\<close> sets
  \<open>exit_reason\<close> wherever it is called.
\<close>

inductive reachable :: "runner \<Rightarrow> bool" where
  init: "reachable (ConjectureRunner st rnd key now)"
| call: "reachable s \<Longrightarrow> test_function clk d s = Inr (out, s') \<Longrightarrow> reachable s'"
| novel_prefix: "reachable s \<Longrightarrow> generate_novel_prefix s = Inr (p, s') \<Longrightarrow> reachable s'"
| selected: "reachable s \<Longrightarrow> select (random_state s) (target_selector s) = Inr (d, sel, rnd)
     \<Longrightarrow> reachable (s\<lparr>target_selector := sel, random_state := rnd\<rparr>)"
| health: "reachable s \<Longrightarrow> reachable (s\<lparr>health_check_state := Some HealthCheckState\<rparr>)"
| drawn: "reachable s \<Longrightarrow> reachable (s\<lparr>random_state := rnd\<rparr>)"
| from_database: "reachable s \<Longrightarrow> reachable (s\<lparr>used_examples_from_database := used\<rparr>)"
| shrunk: "reachable s \<Longrightarrow> reachable (s\<lparr>shrunk_examples := insert target (shrunk_examples s)\<rparr>)"
| started: "reachable s \<Longrightarrow> reachable (s\<lparr>start_time := now\<rparr>)"
| exited: "reachable s \<Longrightarrow> reachable (s\<lparr>exit_reason := Some reason\<rparr>)"

section \<open>Example inputs\<close>

text \<open>
  A runner with a buffer size of four bytes (so the cap is two), and the state it is in
  after one call of \<open>test_function\<close> whose data object drew the byte 1 and then wrote
  the byte 5: the second position is forced.
\<close>

definition ex_settings :: settings where
  "ex_settings = \<lparr>max_examples = 100, buffer_size = 4, timeout = 0,
     phases = {reuse, generate, shrink}, database = None, suppress_health_check = {}\<rparr>"

definition ex_clock :: clock where
  "ex_clock = \<lparr>time_at_start = 0, time_at_end = 0\<rparr>"

definition ex_forced_data :: data where
  "ex_forced_data = \<lparr>buffer = [1, 5], status = VALID, forced_indices = {1},
     masked_indices = Map.empty, block_bounds = [(0, 1), (1, 2)],
     block_starts = [1 \<mapsto> [0, 1]], interesting_origin = [], draw_times = []\<rparr>"

definition ex_forced_state :: runner where
  "ex_forced_state = (ConjectureRunner ex_settings (\<lambda>i. 0) None 0)
     \<lparr>call_count := 1, valid_examples := 1,
      target_selector := \<lparr>best_status = VALID, pool_size = 100,
        fresh_examples = [ex_forced_data], used_examples = []\<rparr>,
      tree := [Branch [1 \<mapsto> 1], Branch [5 \<mapsto> 2], Leaf ex_forced_data],
      dead := {1, 2},
      forced := [1 \<mapsto> 5],
      block_sizes := [0 \<mapsto> 1, 1 \<mapsto> 1]\<rparr>"

text \<open>A test function that overruns on every buffer it is replayed on, and a clock that
  stands still. For the budgets of the examples, 1 and 100, the floating-point products
  \<open>0.1 * 1\<close> and \<open>0.1 * 100\<close> are the doubles 0.1 and 10.0, with the ceilings 1 and 10;
  the example environments give these values.\<close>

definition ex_overrun :: "buffer \<Rightarrow> data" where
  "ex_overrun b = \<lparr>buffer = b, status = OVERRUN, forced_indices = {},
     masked_indices = Map.empty, block_bounds = [], block_starts = Map.empty,
     interesting_origin = [], draw_times = []\<rparr>"

definition ex_environment :: environment where
  "ex_environment = \<lparr>run_test = (\<lambda>n b. ex_overrun b), clock_of = (\<lambda>n. ex_clock),
     ceil_tenth = (\<lambda>n. (n + 9) div 10)\<rparr>"

text \<open>An origin for the mutator with one block of length one, and an interesting result.\<close>

definition ex_origin :: data where
  "ex_origin = \<lparr>buffer = [7], status = VALID, forced_indices = {},
     masked_indices = Map.empty, block_bounds = [(0, 1)], block_starts = [1 \<mapsto> [0]],
     interesting_origin = [], draw_times = []\<rparr>"

definition ex_interesting :: data where
  "ex_interesting = \<lparr>buffer = [2], status = INTERESTING, forced_indices = {},
     masked_indices = Map.empty, block_bounds = [(0, 1)], block_starts = [1 \<mapsto> [0]],
     interesting_origin = ''bug'', draw_times = []\<rparr>"

text \<open>A runner with a budget of one example and a timeout of one second, a clock that
  shows two seconds at the timeout check, and the states after a call.\<close>

definition ex_timeout_settings :: settings where
  "ex_timeout_settings = \<lparr>max_examples = 1, buffer_size = 4, timeout = 1,
     phases = {reuse, generate, shrink}, database = None, suppress_health_check = {}\<rparr>"

definition ex_late_clock :: clock where
  "ex_late_clock = \<lparr>time_at_start = 0, time_at_end = 2\<rparr>"

definition ex_timeout_state :: runner where
  "ex_timeout_state = (ConjectureRunner ex_timeout_settings (\<lambda>i. 0) None 0)
     \<lparr>call_count := 1, valid_examples := 1,
      target_selector := \<lparr>best_status = VALID, pool_size = 100,
        fresh_examples = [ex_origin], used_examples = []\<rparr>,
      exit_reason := Some Timeout,
      tree := [Branch [7 \<mapsto> 1], Leaf ex_origin],
      dead := {1},
      block_sizes := [0 \<mapsto> 1]\<rparr>"

definition ex_budget_state :: runner where
  "ex_budget_state = (ConjectureRunner (ex_timeout_settings\<lparr>timeout := 0\<rparr>) (\<lambda>i. 0) None 0)
     \<lparr>call_count := 1000, valid_examples := 1,
      target_selector := \<lparr>best_status = VALID, pool_size = 100,
        fresh_examples = [ex_origin], used_examples = []\<rparr>,
      exit_reason := Some Max_examples,
      tree := [Branch [7 \<mapsto> 1], Leaf ex_origin],
      dead := {1},
      block_sizes := [0 \<mapsto> 1]\<rparr>"

text \<open>The result of a test that fails without drawing a byte.\<close>

definition ex_failing :: data where
  "ex_failing = \<lparr>buffer = [], status = INTERESTING, forced_indices = {},
     masked_indices = Map.empty, block_bounds = [], block_starts = Map.empty,
     interesting_origin = ''bug'', draw_times = []\<rparr>"






text \<open>The state after a first call with the interesting result, a test function that
  afterwards is valid without drawing a byte, and the state after its first replay.\<close>

definition ex_interesting_state :: runner where
  "ex_interesting_state = (ConjectureRunner ex_settings (\<lambda>i. 0) None 0)
     \<lparr>call_count := 1,
      interesting_examples := [(''bug'', ex_interesting)],
      tree := [Branch [2 \<mapsto> 1], Leaf ex_interesting],
      dead := {1},
      block_sizes := [0 \<mapsto> 1]\<rparr>"

definition ex_empty_valid :: data where
  "ex_empty_valid = \<lparr>buffer = [], status = VALID, forced_indices = {},
     masked_indices = Map.empty, block_bounds = [], block_starts = Map.empty,
     interesting_origin = [], draw_times = []\<rparr>"

definition ex_flaky_environment :: environment where
  "ex_flaky_environment = \<lparr>run_test = (\<lambda>n b. ex_empty_valid), clock_of = (\<lambda>n. ex_clock),
     ceil_tenth = (\<lambda>n. (n + 9) div 10)\<rparr>"

definition ex_exhausted_state :: runner where
  "ex_exhausted_state = (ConjectureRunner ex_settings (\<lambda>i. 0) None 0)
     \<lparr>call_count := 2, valid_examples := 1,
      target_selector := \<lparr>best_status = VALID, pool_size = 100,
        fresh_examples = [ex_empty_valid], used_examples = []\<rparr>,
      interesting_examples := [(''bug'', ex_interesting)],
      exit_reason := Some Finished,
      tree := [Leaf ex_empty_valid, Leaf ex_interesting],
      dead := {0, 1},
      block_sizes := [0 \<mapsto> 1]\<rparr>"

section \<open>The buffer as the tree walk reads it\<close>

text \<open>
  \<open>prescreen_buffer\<close> and \<open>cached_test_function\<close> do not look up the bytes of the
  buffer they are given, but at every node the byte that \<open>rewrite_byte\<close> makes of
  it. \<open>rewrite_from\<close> is the buffer with these bytes along the walk from a node; past
  the point where the walk leaves the tree the bytes are kept.
\<close>

fun rewrite_from :: "runner \<Rightarrow> nat \<Rightarrow> buffer \<Rightarrow> buffer" where
  "rewrite_from s n [] = []"
| "rewrite_from s n (c # cs) =
     (let c' = rewrite_byte s n c
      in c' # (case tree_child s n c' of Inr n' \<Rightarrow> rewrite_from s n' cs | Inl e \<Rightarrow> cs))"

definition rewritten :: "runner \<Rightarrow> buffer \<Rightarrow> buffer" where
  "rewritten s b = rewrite_from s 0 b"

text \<open>
  The shape of the tree that the proofs below maintain: every node has a path of bytes
  from the root, a child's path is its parent's path followed by the byte of the edge,
  and a leaf stores a data object whose buffer is the path of the leaf and whose status
  is not an overrun.
\<close>

definition tree_paths :: "(nat \<Rightarrow> buffer) \<Rightarrow> node list \<Rightarrow> bool" where
  "tree_paths path t \<longleftrightarrow>
     t \<noteq> [] \<and> path 0 = []
     \<and> (\<forall>n children b k. n < length t \<and> t ! n = Branch children \<and> children b = Some k
           \<longrightarrow> k < length t \<and> path k = path n @ [b])
     \<and> (\<forall>n d. n < length t \<and> t ! n = Leaf d \<longrightarrow> buffer d = path n \<and> status d \<noteq> OVERRUN)"

definition tree_ok :: "runner \<Rightarrow> bool" where
  "tree_ok s \<longleftrightarrow> (\<exists>path. tree_paths path (tree s))"

section \<open>Stored leaves on the walk over a buffer\<close>

text \<open>
  \<open>node_from\<close> follows a path of bytes through the branches of the tree, and
  \<open>stored_leaf s p\<close> is the data object stored as a leaf under the path \<open>p\<close> from the
  root, if there is one. A stored leaf lies on the walk over a buffer \<open>b\<close> if some
  non-empty prefix of \<open>b\<close>, read the way the walk reads it, is the path of a leaf.
\<close>

fun node_from :: "runner \<Rightarrow> nat \<Rightarrow> buffer \<Rightarrow> nat option" where
  "node_from s n [] = Some n"
| "node_from s n (c # cs) =
     (case tree_child s n c of Inr n' \<Rightarrow> node_from s n' cs | Inl e \<Rightarrow> None)"

definition stored_leaf_from :: "runner \<Rightarrow> nat \<Rightarrow> buffer \<Rightarrow> data option" where
  "stored_leaf_from s n p =
     (case node_from s n p of
        None \<Rightarrow> None
      | Some n' \<Rightarrow>
          if length (tree s) \<le> n' then None
          else case tree s ! n' of Leaf d \<Rightarrow> Some d | Branch children \<Rightarrow> None)"

definition stored_leaf :: "runner \<Rightarrow> buffer \<Rightarrow> data option" where
  "stored_leaf s p = stored_leaf_from s 0 p"

definition leaf_on_walk :: "runner \<Rightarrow> buffer \<Rightarrow> data \<Rightarrow> bool" where
  "leaf_on_walk s b d \<longleftrightarrow>
     (\<exists>k \<in> {1..length b}. stored_leaf s (take k (rewritten s b)) = Some d)"

text \<open>Every leaf of the tree is marked dead: the second property of the tree that the
  proofs maintain.\<close>

definition leaves_dead :: "runner \<Rightarrow> bool" where
  "leaves_dead s \<longleftrightarrow> (\<forall>n d. n < length (tree s) \<and> tree s ! n = Leaf d \<longrightarrow> n \<in> dead s)"

section \<open>An overrun that fills the buffer\<close>

text \<open>
  A data object that drew four blocks of one byte, the second of them written (forced),
  and then overran: its buffer has the full buffer size of four bytes. The second
  definition is the state of a new runner after \<open>test_function\<close> recorded this data
  object: the walk created the nodes 1 to 4, the nodes of the positions from the cap on
  (2 and 3) are dead, and nothing is stored, the result being an overrun.
\<close>

definition ex_long_overrun :: data where
  "ex_long_overrun = \<lparr>buffer = [0, 0, 0, 0], status = OVERRUN, forced_indices = {1},
     masked_indices = Map.empty, block_bounds = [(0, 1), (1, 2), (2, 3), (3, 4)],
     block_starts = [1 \<mapsto> [0, 1, 2, 3]], interesting_origin = [], draw_times = []\<rparr>"

definition ex_overrun_state :: runner where
  "ex_overrun_state = (ConjectureRunner ex_settings (\<lambda>i. 0) None 0)
     \<lparr>call_count := 1,
      target_selector := \<lparr>best_status = OVERRUN, pool_size = 100,
        fresh_examples = [ex_long_overrun], used_examples = []\<rparr>,
      tree := [Branch [0 \<mapsto> 1], Branch [0 \<mapsto> 2], Branch [0 \<mapsto> 3], Branch [0 \<mapsto> 4],
               Branch Map.empty],
      dead := {2, 3},
      forced := [1 \<mapsto> 0],
      block_sizes := [0 \<mapsto> 1, 1 \<mapsto> 1, 2 \<mapsto> 1, 3 \<mapsto> 1]\<rparr>"

section \<open>Properties of the predecessor and successor draws\<close>

lemma randint_range:
  "a \<le> b \<Longrightarrow> \<exists>c rnd'. randint rnd a b = Inr (c, rnd') \<and> a \<le> c \<and> c \<le> b"
proof -
  assume ab: "a \<le> b"
  have "rnd 0 mod (b + 1 - a) < b + 1 - a" using ab by simp
  then have "a + rnd 0 mod (b + 1 - a) \<le> b" using ab by linarith
  then show ?thesis using ab by (simp add: randint_def randrange_def)
qed

lemma unat_byte_le: "unat (x::byte) \<le> 255"
  using unsigned_less [of x, where ?'a = nat] by simp

lemma unat_of_nat_byte: "c \<le> 255 \<Longrightarrow> unat (of_nat c :: byte) = c"
  by (rule of_nat_inverse) simp_all

lemma byte_of_nat_less: "c < unat (x::byte) \<Longrightarrow> (of_nat c :: byte) < x"
  by (metis le_unat_uoi order_less_le word_less_nat_alt)

lemma byte_less_of_nat: "unat (x::byte) < c \<Longrightarrow> c \<le> 255 \<Longrightarrow> x < (of_nat c :: byte)"
  by (simp add: word_less_nat_alt unat_of_nat_byte)

lemma predecessor_strict_length:
  "\<exists>r rnd'. draw_predecessor_from rnd True xs = Inr (r, rnd') \<and> length r = length xs"
proof (induction xs arbitrary: rnd)
  case Nil
  show ?case by simp
next
  case (Cons x xs)
  obtain c rnd1 where c: "randint rnd 0 255 = Inr (c, rnd1)"
    using randint_range [of 0 255 rnd] by auto
  obtain r rnd2 where "draw_predecessor_from rnd1 True xs = Inr (r, rnd2)"
    and "length r = length xs"
    using Cons [of rnd1] by auto
  with c show ?case by simp
qed

lemma predecessor_le:
  "\<exists>r rnd'. draw_predecessor_from rnd False xs = Inr (r, rnd')
     \<and> length r = length xs \<and> r \<le> xs"
proof (induction xs arbitrary: rnd)
  case Nil
  show ?case by simp
next
  case (Cons x xs)
  obtain c rnd1 where c: "randint rnd 0 (unat x) = Inr (c, rnd1)" and cx: "c \<le> unat x"
    using randint_range [of 0 "unat x" rnd] by auto
  show ?case
  proof (cases "c < unat x")
    case True
    obtain r rnd2 where r: "draw_predecessor_from rnd1 True xs = Inr (r, rnd2)"
      "length r = length xs"
      using predecessor_strict_length [of rnd1 xs] by auto
    have "(of_nat c :: byte) < x" using True by (rule byte_of_nat_less)
    with c r True show ?thesis by simp
  next
    case False
    then have eq: "c = unat x" using cx by simp
    obtain r rnd2 where r: "draw_predecessor_from rnd1 False xs = Inr (r, rnd2)"
      "length r = length xs" "r \<le> xs"
      using Cons [of rnd1] by auto
    with c eq show ?thesis by simp
  qed
qed

lemma successor_strict_length:
  "\<exists>r rnd'. draw_successor_from rnd True xs = Inr (r, rnd') \<and> length r = length xs"
proof (induction xs arbitrary: rnd)
  case Nil
  show ?case by simp
next
  case (Cons x xs)
  obtain c rnd1 where c: "randint rnd 0 255 = Inr (c, rnd1)"
    using randint_range [of 0 255 rnd] by auto
  obtain r rnd2 where "draw_successor_from rnd1 True xs = Inr (r, rnd2)"
    and "length r = length xs"
    using Cons [of rnd1] by auto
  with c show ?case by simp
qed

lemma successor_ge:
  "\<exists>r rnd'. draw_successor_from rnd False xs = Inr (r, rnd')
     \<and> length r = length xs \<and> xs \<le> r"
proof (induction xs arbitrary: rnd)
  case Nil
  show ?case by simp
next
  case (Cons x xs)
  obtain c rnd1 where c: "randint rnd (unat x) 255 = Inr (c, rnd1)"
    and xc: "unat x \<le> c" and c255: "c \<le> 255"
    using randint_range [of "unat x" 255 rnd] unat_byte_le [of x] by auto
  show ?case
  proof (cases "unat x < c")
    case True
    obtain r rnd2 where r: "draw_successor_from rnd1 True xs = Inr (r, rnd2)"
      "length r = length xs"
      using successor_strict_length [of rnd1 xs] by auto
    have "x < (of_nat c :: byte)" using True c255 by (rule byte_less_of_nat)
    with c r True show ?thesis by simp
  next
    case False
    then have eq: "c = unat x" using xc by simp
    obtain r rnd2 where r: "draw_successor_from rnd1 False xs = Inr (r, rnd2)"
      "length r = length xs" "xs \<le> r"
      using Cons [of rnd1] by auto
    with c eq show ?thesis by simp
  qed
qed

text \<open>
  Claim C7. For every non-empty byte sequence \<open>xs\<close> and every random source,
  \<open>_draw_predecessor\<close> returns a sequence that is lexicographically at most \<open>xs\<close>,
  \<open>_draw_successor\<close> returns one that is lexicographically at least \<open>xs\<close>, and both
  results have the length of \<open>xs\<close>. Neither call raises.
\<close>

theorem draw_predecessor_successor_order:
  assumes "xs \<noteq> []"
  shows "\<exists>p s rnd1 rnd2.
           draw_predecessor rnd xs = Inr (p, rnd1) \<and> draw_successor rnd' xs = Inr (s, rnd2)
           \<and> p \<le> xs \<and> xs \<le> s \<and> length p = length xs \<and> length s = length xs"
proof -
  obtain p rnd1 where "draw_predecessor_from rnd False xs = Inr (p, rnd1)"
    "length p = length xs" "p \<le> xs"
    using predecessor_le [of rnd xs] by auto
  moreover obtain s rnd2 where "draw_successor_from rnd' False xs = Inr (s, rnd2)"
    "length s = length xs" "xs \<le> s"
    using successor_ge [of rnd' xs] by auto
  ultimately show ?thesis
    by (simp add: draw_predecessor_def draw_successor_def)
qed

theorem draw_predecessor_successor_order_witness:
  "[3, 7] \<noteq> ([] :: buffer) \<and>
   (\<exists>p s rnd1 rnd2.
      draw_predecessor (\<lambda>i. 5) [3, 7] = Inr (p, rnd1)
      \<and> draw_successor (\<lambda>i. 5) [3, 7] = Inr (s, rnd2)
      \<and> p \<le> [3, 7] \<and> [3, 7] \<le> s
      \<and> length p = length [3, 7 :: byte] \<and> length s = length [3, 7 :: byte])"
  using draw_predecessor_successor_order [of "[3, 7]" "\<lambda>i. 5" "\<lambda>i. 5"] by simp

section \<open>The example state is reached\<close>

lemmas runner_defs = ConjectureRunner_def reset_tree_to_empty_def
  test_function_def record_result_def add_def update_tree_def note_position_def descend_def
  check_exit_def
  record_for_health_check_def update_interesting_def tree_node_def cap_def
  TargetSelector_def selector_len_def reset_def MUTATION_POOL_SIZE_def
  CACHE_RESET_FREQUENCY_def HUNG_TEST_TIME_LIMIT_def MAX_SHRINKS_def tree_is_exhausted_def
  is_simple_mask_def

lemmas lookup_defs = cached_lookup_def prescreen_buffer_def tree_child_def tree_node_def
  rewrite_byte_def

lemma ex_forced_state_reached:
  "test_function ex_clock ex_forced_data (ConjectureRunner ex_settings (\<lambda>i. 0) None 0)
     = Inr (Returned (), ex_forced_state)"
  apply (simp add: runner_defs ex_settings_def ex_clock_def ex_forced_data_def
      ex_forced_state_def Let_def)
  apply (simp add: eval_nat_numeral)
  done

lemma ex_forced_state_reachable: "reachable ex_forced_state"
  using reachable.call [OF reachable.init ex_forced_state_reached] .

lemma ex_forced_state_tree:
  "tree ex_forced_state = [Branch [1 \<mapsto> 1], Branch [5 \<mapsto> 2], Leaf ex_forced_data]"
  "dead ex_forced_state = {1, 2}"
  "forced ex_forced_state = [1 \<mapsto> 5]"
  "masks ex_forced_state = Map.empty"
  "block_sizes ex_forced_state = [0 \<mapsto> 1, 1 \<mapsto> 1]"
  by (simp_all add: ex_forced_state_def ConjectureRunner_def reset_tree_to_empty_def)

section \<open>Prescreening against the cached test function\<close>

lemma tree_node_not_KeyError: "tree_node s n \<noteq> Inl KeyError"
  by (simp add: tree_node_def split: node.splits)

lemma prescreen_True_node:
  "prescreen_from s n k node bs = Inr True \<Longrightarrow> \<exists>children. tree_node s node = Inr children"
  using tree_node_not_KeyError [of s node]
  by (cases bs) (auto simp: tree_child_def Let_def split: if_splits sum.splits option.splits)

lemma prescreen_True_lookup:
  "prescreen_from s n k node bs = Inr True \<Longrightarrow> cached_lookup_from s node bs = Inr None"
proof (induction bs arbitrary: k node)
  case Nil
  then show ?case by simp
next
  case (Cons b bs)
  show ?case
  proof (cases "tree_child s node (rewrite_byte s node b)")
    case (Inl e)
    with Cons.prems show ?thesis by (auto simp: Let_def split: if_splits)
  next
    case (Inr node')
    with Cons.prems have next_True: "prescreen_from s n (k + 1) node' bs = Inr True"
      by (auto simp: Let_def split: if_splits)
    then obtain children where "tree_node s node' = Inr children"
      using prescreen_True_node by blast
    then have "node' < length (tree s)" "tree s ! node' = Branch children"
      by (auto simp: tree_node_def split: if_splits node.splits)
    with Inr Cons.IH [OF next_True] show ?thesis by simp
  qed
qed

text \<open>
  Claim C3, as stated: whenever \<open>prescreen_buffer\<close> returns false,
  \<open>cached_test_function\<close> does not invoke the test function. In the example state,
  the buffer \<open>[1]\<close> ends inside the tree: \<open>prescreen_buffer\<close> returns false, the loop of
  \<open>cached_test_function\<close> runs off the end of the buffer without meeting a leaf, and the
  test function is called (the call is counted).
\<close>

theorem prescreen_false_counterexample:
  "prescreen_buffer ex_forced_state [1] = Inr False
   \<and> cached_test_function ex_environment [1] ex_forced_state
       = Inr (Returned (ex_overrun [1]), ex_forced_state\<lparr>call_count := 2\<rparr>)"
proof -
  have "prescreen_buffer ex_forced_state [1] = Inr False"
    by (simp add: lookup_defs ex_forced_state_tree)
  moreover have "cached_lookup ex_forced_state [1] = Inr None"
    by (simp add: lookup_defs ex_forced_state_tree)
  moreover have "replay ex_environment [1] ex_forced_state
      = Inr (Returned (ex_overrun [1]), ex_forced_state\<lparr>call_count := 2\<rparr>)"
    by (simp add: replay_def ex_environment_def runner_defs ex_settings_def ex_clock_def
        ex_overrun_def ex_forced_state_def ex_forced_data_def Let_def)
  ultimately show ?thesis by (simp add: cached_test_function_def)
qed

section \<open>The cache-hit path leaves the state alone\<close>

text \<open>
  Claim C10. When the loop of \<open>cached_test_function\<close> reaches a stored leaf, the call
  returns that leaf and the runner's state is the state before the call, in every
  field.
\<close>

theorem cached_hit_frame:
  assumes "cached_lookup s b = Inr (Some d)"
  shows "cached_test_function env b s = Inr (Returned d, s)"
  using assms by (simp add: cached_test_function_def)

theorem cached_hit_frame_witness:
  "cached_lookup ex_forced_state [1, 7] = Inr (Some ex_forced_data)
   \<and> cached_test_function ex_environment [1, 7] ex_forced_state
       = Inr (Returned ex_forced_data, ex_forced_state)"
proof -
  have "cached_lookup ex_forced_state [1, 7] = Inr (Some ex_forced_data)"
    by (simp add: lookup_defs ex_forced_state_tree)
  then show ?thesis
    using cached_hit_frame [of ex_forced_state "[1, 7]" ex_forced_data ex_environment] by simp
qed

section \<open>The bit strategy \<open>reuse_existing\<close>\<close>

lemma rng_tail_const: "rng_tail (\<lambda>i. c) = (\<lambda>i. c)"
  by (simp add: rng_tail_def)

text \<open>
  Claim C4, as stated: if the origin's list of starts of blocks of length \<open>n\<close> is not
  empty, the result is \<open>n\<close> bytes of the origin's buffer at one of these starts. Here
  the origin has the block start 0 for length 1 and the byte 7 there, the data object
  being drawn has no block yet, and \<open>reuse_existing\<close> returns the uniform byte 9: it
  reads the block starts and the buffer of the data object being drawn, not the origin's.
\<close>

theorem reuse_existing_counterexample:
  "block_starts ex_origin 1 = Some [0]
   \<and> take 1 (drop 0 (buffer ex_origin)) = [7]
   \<and> reuse_existing ex_origin (\<lambda>i. 9) (ex_overrun []) 1 = Inr ([9], \<lambda>i. 9)"
  by (simp add: ex_origin_def reuse_existing_def ex_overrun_def uniform_def getrandbits_def
      int_to_bytes_def rng_tail_const)

lemma choice_nth:
  "k < length xs \<Longrightarrow> choice (\<lambda>i. k) xs = Inr (xs ! k, \<lambda>i. k)"
  by (auto simp: choice_def rng_tail_const)

lemma choice_in_set:
  "xs \<noteq> [] \<Longrightarrow> \<exists>x \<in> set xs. choice rnd xs = Inr (x, rng_tail rnd)"
  by (simp add: choice_def)

text \<open>
  Claim C4, amended: \<open>reuse_existing(data, n)\<close> looks at the data object that is being
  drawn. If its list of starts of blocks of length \<open>n\<close> is not empty, the result is the
  slice \<open>data.buffer[i : i + n]\<close> at one of these starts \<open>i\<close>, and every start of the
  list is the choice of some random stream; if the list is missing or empty, the result
  is \<open>uniform(random, n)\<close>. The origin plays no part.
\<close>

theorem reuse_existing_drawn_data:
  "(\<forall>starts. block_starts d n = Some starts \<and> starts \<noteq> [] \<longrightarrow>
      (\<exists>i \<in> set starts.
         reuse_existing target_data rnd d n = Inr (take n (drop i (buffer d)), rng_tail rnd))
      \<and> (\<forall>i \<in> set starts. \<exists>rnd'.
         reuse_existing target_data rnd' d n = Inr (take n (drop i (buffer d)), rng_tail rnd')))
   \<and> (block_starts d n = None \<or> block_starts d n = Some [] \<longrightarrow>
        reuse_existing target_data rnd d n = Inr (uniform rnd n))"
proof (intro conjI allI impI ballI)
  fix starts
  assume a: "block_starts d n = Some starts \<and> starts \<noteq> []"
  then obtain x where "x \<in> set starts" "choice rnd starts = Inr (x, rng_tail rnd)"
    using choice_in_set [of starts rnd] by auto
  with a show "\<exists>i \<in> set starts.
      reuse_existing target_data rnd d n = Inr (take n (drop i (buffer d)), rng_tail rnd)"
    by (auto simp: reuse_existing_def)
next
  fix starts i
  assume a: "block_starts d n = Some starts \<and> starts \<noteq> []" and i: "i \<in> set starts"
  then obtain k where k: "k < length starts" "starts ! k = i"
    by (auto simp: in_set_conv_nth)
  then have "choice (\<lambda>i. k) starts = Inr (i, \<lambda>i. k)" using choice_nth by blast
  with a have "reuse_existing target_data (\<lambda>i. k) d n
      = Inr (take n (drop i (buffer d)), rng_tail (\<lambda>i. k))"
    by (simp add: reuse_existing_def rng_tail_const)
  then show "\<exists>rnd'. reuse_existing target_data rnd' d n
      = Inr (take n (drop i (buffer d)), rng_tail rnd')" by blast
next
  assume "block_starts d n = None \<or> block_starts d n = Some []"
  then show "reuse_existing target_data rnd d n = Inr (uniform rnd n)"
    by (auto simp: reuse_existing_def)
qed

theorem reuse_existing_drawn_data_witness:
  "block_starts ex_forced_data 1 = Some [0, 1] \<and> [0, 1] \<noteq> ([] :: nat list)
   \<and> (\<exists>i \<in> set [0, 1]. reuse_existing ex_origin (\<lambda>i. 1) ex_forced_data 1
         = Inr (take 1 (drop i (buffer ex_forced_data)), rng_tail (\<lambda>i. 1)))
   \<and> block_starts (ex_overrun []) 1 = None
   \<and> reuse_existing ex_origin (\<lambda>i. 9) (ex_overrun []) 1 = Inr (uniform (\<lambda>i. 9) 1)"
proof -
  have a: "block_starts ex_forced_data 1 = Some [0, 1]" by (simp add: ex_forced_data_def)
  have b: "block_starts (ex_overrun []) 1 = None" by (simp add: ex_overrun_def)
  show ?thesis
    using a b reuse_existing_drawn_data [of ex_forced_data 1 ex_origin "\<lambda>i. 1"]
      reuse_existing_drawn_data [of "ex_overrun []" 1 ex_origin "\<lambda>i. 9"]
    by simp
qed

section \<open>The pool of the target selector\<close>

lemma pop_random_length:
  "xs \<noteq> [] \<Longrightarrow> \<exists>x rest rnd'. pop_random rnd xs = Inr (x, rest, rnd') \<and> length xs = Suc (length rest)"
proof -
  assume "xs \<noteq> []"
  then have "0 < length xs" by simp
  then show ?thesis by (simp add: pop_random_def randrange_def Let_def)
qed

lemma pop_random_Inr:
  "pop_random rnd xs = Inr (x, rest, rnd') \<Longrightarrow> length xs = Suc (length rest)"
  using pop_random_length [of xs rnd]
  by (cases "xs = []") (auto simp: pop_random_def randrange_def)

lemma pop_random_Inl: "pop_random rnd xs = Inl e \<Longrightarrow> xs = []"
  by (auto simp: pop_random_def randrange_def Let_def split: if_splits)

lemma add_invariant:
  assumes "selector_len sel \<le> pool_size sel"
  shows "\<exists>sel' rnd'. add rnd d sel = Inr (sel', rnd')
           \<and> selector_len sel' \<le> pool_size sel' \<and> pool_size sel' = pool_size sel"
  using assms
  by (auto simp: add_def Let_def reset_def selector_len_def
      split: sum.splits prod.splits if_splits dest!: pop_random_Inr pop_random_Inl)

lemma select_invariant:
  assumes "selector_len sel \<le> pool_size sel" and "selector_len sel \<noteq> 0"
  shows "\<exists>d sel' rnd'. select rnd sel = Inr (d, sel', rnd')
           \<and> selector_len sel' \<le> pool_size sel' \<and> pool_size sel' = pool_size sel"
proof (cases "fresh_examples sel \<noteq> []")
  case True
  then obtain x rest rnd' where pr: "pop_random rnd (fresh_examples sel) = Inr (x, rest, rnd')"
    "length (fresh_examples sel) = Suc (length rest)"
    using pop_random_length by blast
  then show ?thesis using True assms
    by (auto simp: select_def selector_len_def)
next
  case False
  then have "used_examples sel \<noteq> []" using assms by (simp add: selector_len_def)
  then show ?thesis using False assms by (simp add: select_def choice_def)
qed

lemma select_result:
  assumes "selector_len sel \<le> pool_size sel" and "select rnd sel = Inr (d, sel', rnd')"
  shows "selector_len sel' \<le> pool_size sel' \<and> pool_size sel' = pool_size sel"
proof (cases "selector_len sel = 0")
  case True
  then show ?thesis using assms by (simp add: select_def selector_len_def choice_def)
next
  case False
  then show ?thesis using select_invariant [OF assms(1) False, of rnd] assms(2) by auto
qed

lemma selector_calls_invariant:
  "selector_len sel \<le> pool_size sel \<Longrightarrow> selector_calls calls rnd sel = Inr (sel', rnd')
     \<Longrightarrow> selector_len sel' \<le> pool_size sel' \<and> pool_size sel' = pool_size sel"
proof (induction calls rnd sel rule: selector_calls.induct)
  case (1 rnd sel)
  then show ?case by simp
next
  case (2 d calls rnd sel)
  obtain sel1 rnd1 where a: "add rnd d sel = Inr (sel1, rnd1)"
    "selector_len sel1 \<le> pool_size sel1" "pool_size sel1 = pool_size sel"
    using add_invariant [OF "2.prems"(1), of rnd d] by auto
  then show ?case using "2.IH" [of "(sel1, rnd1)" sel1 rnd1] "2.prems" by simp
next
  case (3 calls rnd sel)
  then obtain d sel1 rnd1 where s: "select rnd sel = Inr (d, sel1, rnd1)"
    by (auto split: sum.splits)
  then have "selector_len sel1 \<le> pool_size sel1" "pool_size sel1 = pool_size sel"
    using select_result [OF "3.prems"(1) s] by auto
  then show ?case using "3.IH" [of "(d, sel1, rnd1)" d "(sel1, rnd1)" sel1 rnd1] "3.prems" s by simp
qed

lemma selector_calls_append:
  "selector_calls (xs @ ys) rnd sel =
     (case selector_calls xs rnd sel of
        Inl e \<Rightarrow> Inl e
      | Inr (sel', rnd') \<Rightarrow> selector_calls ys rnd' sel')"
  by (induction xs rnd sel rule: selector_calls.induct) (auto split: sum.splits)


text \<open>
  Claim C6, as stated in its second half: any \<open>add\<close> whose status strictly exceeds
  \<open>best_status\<close> empties both partitions before inserting. An interesting result has
  the greatest status, yet \<open>add\<close> returns at once and the pool keeps its example.
\<close>

theorem selector_add_counterexample:
  "status_value (status ex_interesting)
     > status_value (best_status \<lparr>best_status = VALID, pool_size = 100,
         fresh_examples = [ex_forced_data], used_examples = []\<rparr>)
   \<and> add (\<lambda>i. 0) ex_interesting
         \<lparr>best_status = VALID, pool_size = 100,
          fresh_examples = [ex_forced_data], used_examples = []\<rparr>
       = Inr (\<lparr>best_status = VALID, pool_size = 100,
               fresh_examples = [ex_forced_data], used_examples = []\<rparr>, \<lambda>i. 0)"
  by (simp add: add_def ex_interesting_def)

text \<open>
  Claim C6, amended. Starting from a new selector of pool size \<open>n\<close>, after every call
  of a sequence of \<open>add\<close> and \<open>select\<close> calls that raises no exception the pool holds
  at most \<open>n\<close> examples. From a pool within its bound \<open>add\<close> never raises, and
  \<open>select\<close> does not raise when the pool is not empty. An \<open>add\<close> of a result that is
  not interesting and whose status strictly exceeds \<open>best_status\<close> leaves the new
  result alone in the fresh partition and the used partition empty (pool size at least
  one); an interesting result is ignored.
\<close>

theorem selector_pool_bound:
  "(selector_calls (calls1 @ calls2) rnd (TargetSelector n) = Inr (sel, rnd') \<longrightarrow>
      (\<exists>sel1 rnd1. selector_calls calls1 rnd (TargetSelector n) = Inr (sel1, rnd1)
         \<and> selector_len sel1 \<le> pool_size sel1 \<and> pool_size sel1 = n))
   \<and> (selector_len sel0 \<le> pool_size sel0 \<longrightarrow>
        (\<exists>sel' rnd'. add rnd d sel0 = Inr (sel', rnd')
           \<and> selector_len sel' \<le> pool_size sel' \<and> pool_size sel' = pool_size sel0))
   \<and> (selector_len sel0 \<le> pool_size sel0 \<and> selector_len sel0 \<noteq> 0 \<longrightarrow>
        (\<exists>x sel' rnd'. select rnd sel0 = Inr (x, sel', rnd')
           \<and> selector_len sel' \<le> pool_size sel' \<and> pool_size sel' = pool_size sel0))
   \<and> (status d \<noteq> INTERESTING
        \<and> status_value (status d) > status_value (best_status sel0) \<and> 0 < pool_size sel0 \<longrightarrow>
        add rnd d sel0
          = Inr (sel0\<lparr>best_status := status d, fresh_examples := [d], used_examples := []\<rparr>,
                 rnd))
   \<and> (status d = INTERESTING \<longrightarrow> add rnd d sel0 = Inr (sel0, rnd))"
proof (intro conjI impI)
  assume run: "selector_calls (calls1 @ calls2) rnd (TargetSelector n) = Inr (sel, rnd')"
  then obtain sel1 rnd1 where
    first: "selector_calls calls1 rnd (TargetSelector n) = Inr (sel1, rnd1)"
    by (auto simp: selector_calls_append split: sum.splits)
  have "selector_len (TargetSelector n) \<le> pool_size (TargetSelector n)"
    by (simp add: TargetSelector_def selector_len_def)
  from selector_calls_invariant [OF this first]
  have "selector_len sel1 \<le> pool_size sel1 \<and> pool_size sel1 = n"
    by (simp add: TargetSelector_def)
  with first show "\<exists>sel1 rnd1. selector_calls calls1 rnd (TargetSelector n) = Inr (sel1, rnd1)
      \<and> selector_len sel1 \<le> pool_size sel1 \<and> pool_size sel1 = n"
    by blast
next
  assume "selector_len sel0 \<le> pool_size sel0"
  then show "\<exists>sel' rnd'. add rnd d sel0 = Inr (sel', rnd')
      \<and> selector_len sel' \<le> pool_size sel' \<and> pool_size sel' = pool_size sel0"
    by (rule add_invariant)
next
  assume "selector_len sel0 \<le> pool_size sel0 \<and> selector_len sel0 \<noteq> 0"
  then show "\<exists>x sel' rnd'. select rnd sel0 = Inr (x, sel', rnd')
      \<and> selector_len sel' \<le> pool_size sel' \<and> pool_size sel' = pool_size sel0"
    using select_invariant [of sel0 rnd] by blast
next
  assume "status d \<noteq> INTERESTING
      \<and> status_value (status d) > status_value (best_status sel0) \<and> 0 < pool_size sel0"
  then show "add rnd d sel0
      = Inr (sel0\<lparr>best_status := status d, fresh_examples := [d], used_examples := []\<rparr>, rnd)"
    by (simp add: add_def reset_def selector_len_def Let_def)
next
  assume "status d = INTERESTING"
  then show "add rnd d sel0 = Inr (sel0, rnd)" by (simp add: add_def)
qed

theorem selector_pool_bound_witness:
  "selector_calls ([Add ex_forced_data] @ [Select]) (\<lambda>i. 0) (TargetSelector 100)
     = Inr (\<lparr>best_status = VALID, pool_size = 100, fresh_examples = [],
              used_examples = [ex_forced_data]\<rparr>, \<lambda>i. 0)
   \<and> (\<exists>sel1 rnd1. selector_calls [Add ex_forced_data] (\<lambda>i. 0) (TargetSelector 100)
          = Inr (sel1, rnd1) \<and> selector_len sel1 \<le> pool_size sel1 \<and> pool_size sel1 = 100)
   \<and> selector_len (TargetSelector 100) \<le> pool_size (TargetSelector 100)
   \<and> status ex_forced_data \<noteq> INTERESTING
   \<and> status_value (status ex_forced_data) > status_value (best_status (TargetSelector 100))
   \<and> 0 < pool_size (TargetSelector 100)
   \<and> add (\<lambda>i. 0) ex_forced_data (TargetSelector 100)
       = Inr ((TargetSelector 100)\<lparr>best_status := status ex_forced_data,
                fresh_examples := [ex_forced_data], used_examples := []\<rparr>, \<lambda>i. 0)
   \<and> status ex_interesting = INTERESTING
   \<and> add (\<lambda>i. 0) ex_interesting (TargetSelector 100) = Inr (TargetSelector 100, \<lambda>i. 0)"
proof -
  have run: "selector_calls ([Add ex_forced_data] @ [Select]) (\<lambda>i. 0) (TargetSelector 100)
     = Inr (\<lparr>best_status = VALID, pool_size = 100, fresh_examples = [],
              used_examples = [ex_forced_data]\<rparr>, \<lambda>i. 0)"
    by (simp add: add_def select_def pop_random_def randrange_def TargetSelector_def
        reset_def selector_len_def rng_tail_def ex_forced_data_def Let_def)
  have facts: "selector_len (TargetSelector 100) \<le> pool_size (TargetSelector 100)"
    "status ex_forced_data \<noteq> INTERESTING"
    "status_value (status ex_forced_data) > status_value (best_status (TargetSelector 100))"
    "0 < pool_size (TargetSelector 100)" "status ex_interesting = INTERESTING"
    by (simp_all add: TargetSelector_def selector_len_def ex_forced_data_def ex_interesting_def)
  note first = selector_pool_bound [of "[Add ex_forced_data]" "[Select]" "\<lambda>i. 0" 100
      "\<lparr>best_status = VALID, pool_size = 100, fresh_examples = [],
        used_examples = [ex_forced_data]\<rparr>" "\<lambda>i. 0" "TargetSelector 100" ex_forced_data]
  note second = selector_pool_bound [of "[]" "[]" "\<lambda>i. 0" 100 "TargetSelector 100" "\<lambda>i. 0"
      "TargetSelector 100" ex_interesting]
  have bound: "\<exists>sel1 rnd1. selector_calls [Add ex_forced_data] (\<lambda>i. 0) (TargetSelector 100)
      = Inr (sel1, rnd1) \<and> selector_len sel1 \<le> pool_size sel1 \<and> pool_size sel1 = 100"
    using first run by blast
  have upgrade: "add (\<lambda>i. 0) ex_forced_data (TargetSelector 100)
       = Inr ((TargetSelector 100)\<lparr>best_status := status ex_forced_data,
                fresh_examples := [ex_forced_data], used_examples := []\<rparr>, \<lambda>i. 0)"
    using first facts by blast
  have ignored: "add (\<lambda>i. 0) ex_interesting (TargetSelector 100)
      = Inr (TargetSelector 100, \<lambda>i. 0)"
    using second facts by blast
  show ?thesis
    using run bound facts upgrade ignored by blast
qed

section \<open>Budget checks at the end of \<open>test_function\<close>\<close>

text \<open>
  Claim C5, as stated: after a call with no interesting example recorded, the run exits
  with reason \<open>max_examples\<close> if \<open>valid_examples \<ge> max_examples\<close>, and with reason
  \<open>max_iterations\<close> if \<open>call_count \<ge> max(max_examples * 10, 1000)\<close>. First call
  below: the budget of one valid example is reached, but the timeout check comes first
  and the reason is \<open>timeout\<close>. Second call: the thousandth call is the first valid
  one, both bounds are reached, and the reason is \<open>max_examples\<close>, not
  \<open>max_iterations\<close>.
\<close>

theorem budget_exit_counterexample:
  "test_function ex_late_clock ex_origin (ConjectureRunner ex_timeout_settings (\<lambda>i. 0) None 0)
     = Inr (RunIsComplete, ex_timeout_state)
   \<and> interesting_examples ex_timeout_state = []
   \<and> valid_examples ex_timeout_state \<ge> max_examples (settings ex_timeout_state)
   \<and> exit_reason ex_timeout_state = Some Timeout
   \<and> test_function ex_clock ex_origin
        ((ConjectureRunner (ex_timeout_settings\<lparr>timeout := 0\<rparr>) (\<lambda>i. 0) None 0)
           \<lparr>call_count := 999\<rparr>)
     = Inr (RunIsComplete, ex_budget_state)
   \<and> interesting_examples ex_budget_state = []
   \<and> call_count ex_budget_state
        \<ge> max (max_examples (settings ex_budget_state) * 10) 1000
   \<and> exit_reason ex_budget_state = Some Max_examples"
  apply (simp add: runner_defs ex_timeout_settings_def ex_late_clock_def ex_clock_def
      ex_origin_def ex_timeout_state_def ex_budget_state_def exit_with_def Let_def)
  done

lemma record_for_health_check_frame:
  "record_for_health_check d s = Inr s' \<Longrightarrow>
     interesting_examples s' = interesting_examples s \<and> valid_examples s' = valid_examples s
     \<and> call_count s' = call_count s \<and> settings s' = settings s
     \<and> start_time s' = start_time s \<and> exit_reason s' = exit_reason s"
  by (auto simp: record_for_health_check_def Let_def
      split: if_splits option.splits sum.splits)

lemma update_interesting_nonempty:
  "status d = INTERESTING \<Longrightarrow> interesting_examples (update_interesting d s) \<noteq> []"
  by (cases "interesting_examples s")
    (auto simp: update_interesting_def Let_def split: option.splits if_splits)

lemma record_result_interesting:
  "record_result d s = Inr s' \<Longrightarrow> status d = INTERESTING \<Longrightarrow> interesting_examples s' \<noteq> []"
  by (auto simp: record_result_def Let_def update_interesting_nonempty
      split: sum.splits prod.splits)

lemma check_exit_budget:
  assumes "interesting_examples s = []" and "status d \<noteq> INTERESTING"
    and "\<not> (timeout (settings s) > 0 \<and> time_at_end clk \<ge> start_time s + timeout (settings s))"
  shows "valid_examples s \<ge> max_examples (settings s) \<Longrightarrow> check_exit clk d s = Some Max_examples"
    and "valid_examples s < max_examples (settings s) \<Longrightarrow>
      call_count s \<ge> max (max_examples (settings s) * 10) 1000 \<Longrightarrow>
      check_exit clk d s = Some Max_iterations"
  using assms by (auto simp: check_exit_def)

lemma check_exit_interesting:
  "interesting_examples s \<noteq> [] \<Longrightarrow> check_exit clk d s \<noteq> Some Max_examples
     \<and> check_exit clk d s \<noteq> Some Max_iterations"
  by (simp add: check_exit_def)

lemma test_function_cases:
  assumes "test_function clk d s = Inr (out, s')"
  obtains s1 reason where "record_result d (s\<lparr>call_count := call_count s + 1\<rparr>) = Inr s1"
      "check_exit clk d s1 = Some reason" "out = RunIsComplete"
      "s' = s1\<lparr>exit_reason := Some reason\<rparr>"
  | s1 where "record_result d (s\<lparr>call_count := call_count s + 1\<rparr>) = Inr s1"
      "check_exit clk d s1 = None" "out = Returned ()"
      "record_for_health_check d s1 = Inr s'"
  using assms
  by (auto simp: test_function_def exit_with_def split: sum.splits option.splits if_splits)

text \<open>
  Claim C5, amended. After a call of \<open>test_function\<close> that raises no Python exception
  and at whose end the timeout check does not fire: while no interesting example is
  recorded, the run exits with reason \<open>max_examples\<close> if
  \<open>valid_examples \<ge> max_examples\<close>, and otherwise with reason \<open>max_iterations\<close> if
  \<open>call_count \<ge> max(max_examples * 10, 1000)\<close>; once an interesting example exists,
  the call exits with neither reason.
\<close>

theorem budget_exits:
  assumes "test_function clk d s = Inr (out, s')"
    and "\<not> (timeout (settings s') > 0
             \<and> time_at_end clk \<ge> start_time s' + timeout (settings s'))"
  shows "(interesting_examples s' = [] \<and> valid_examples s' \<ge> max_examples (settings s')
            \<longrightarrow> out = RunIsComplete \<and> exit_reason s' = Some Max_examples)
       \<and> (interesting_examples s' = [] \<and> valid_examples s' < max_examples (settings s')
            \<and> call_count s' \<ge> max (max_examples (settings s') * 10) 1000
            \<longrightarrow> out = RunIsComplete \<and> exit_reason s' = Some Max_iterations)
       \<and> (interesting_examples s' \<noteq> [] \<and> out = RunIsComplete
            \<longrightarrow> exit_reason s' \<noteq> Some Max_examples \<and> exit_reason s' \<noteq> Some Max_iterations)"
  using assms(1)
proof (cases rule: test_function_cases)
  case (1 s1 reason)
  have ni: "interesting_examples s1 = [] \<Longrightarrow> status d \<noteq> INTERESTING"
    using record_result_interesting [OF 1(1)] by blast
  have nt: "\<not> (timeout (settings s1) > 0
             \<and> time_at_end clk \<ge> start_time s1 + timeout (settings s1))"
    using assms(2) 1(4) by simp
  show ?thesis
    using 1 check_exit_budget [OF _ ni nt] check_exit_interesting [of s1 clk d]
    by (cases "interesting_examples s1 = []") auto
next
  case (2 s1)
  note frame = record_for_health_check_frame [OF 2(4)]
  have ni: "interesting_examples s1 = [] \<Longrightarrow> status d \<noteq> INTERESTING"
    using record_result_interesting [OF 2(1)] by blast
  have nt: "\<not> (timeout (settings s1) > 0
             \<and> time_at_end clk \<ge> start_time s1 + timeout (settings s1))"
    using assms(2) frame by simp
  show ?thesis
    using 2 frame check_exit_budget [OF _ ni nt]
    by (cases "interesting_examples s1 = []") auto
qed


theorem budget_exits_witness:
  "(\<exists>s'. test_function ex_clock ex_origin
          ((ConjectureRunner (ex_timeout_settings\<lparr>timeout := 0\<rparr>) (\<lambda>i. 0) None 0)
             \<lparr>call_count := 999\<rparr>) = Inr (RunIsComplete, s')
         \<and> \<not> (timeout (settings s') > 0
               \<and> time_at_end ex_clock \<ge> start_time s' + timeout (settings s'))
         \<and> interesting_examples s' = [] \<and> valid_examples s' \<ge> max_examples (settings s')
         \<and> exit_reason s' = Some Max_examples)
   \<and> (\<exists>s'. test_function ex_clock ex_origin
          ((ConjectureRunner ex_settings (\<lambda>i. 0) None 0)\<lparr>call_count := 999\<rparr>)
            = Inr (RunIsComplete, s')
         \<and> \<not> (timeout (settings s') > 0
               \<and> time_at_end ex_clock \<ge> start_time s' + timeout (settings s'))
         \<and> interesting_examples s' = [] \<and> valid_examples s' < max_examples (settings s')
         \<and> call_count s' \<ge> max (max_examples (settings s') * 10) 1000
         \<and> exit_reason s' = Some Max_iterations)
   \<and> (\<exists>s'. test_function ex_clock ex_failing (ConjectureRunner ex_settings (\<lambda>i. 0) None 0)
            = Inr (RunIsComplete, s')
         \<and> \<not> (timeout (settings s') > 0
               \<and> time_at_end ex_clock \<ge> start_time s' + timeout (settings s'))
         \<and> interesting_examples s' \<noteq> []
         \<and> exit_reason s' \<noteq> Some Max_examples \<and> exit_reason s' \<noteq> Some Max_iterations)"
proof -
  define sa where "sa = ex_budget_state"
  define sb where "sb = (ConjectureRunner ex_settings (\<lambda>i. 0) None 0)
     \<lparr>call_count := 1000, valid_examples := 1,
      target_selector := \<lparr>best_status = VALID, pool_size = 100,
        fresh_examples = [ex_origin], used_examples = []\<rparr>,
      exit_reason := Some Max_iterations,
      tree := [Branch [7 \<mapsto> 1], Leaf ex_origin],
      dead := {1},
      block_sizes := [0 \<mapsto> 1]\<rparr>"
  define sc where "sc = (ConjectureRunner ex_settings (\<lambda>i. 0) None 0)
     \<lparr>call_count := 1,
      interesting_examples := [(''bug'', ex_failing)],
      exit_reason := Some Finished,
      tree := [Leaf ex_failing],
      dead := {0}\<rparr>"
  have a: "test_function ex_clock ex_origin
          ((ConjectureRunner (ex_timeout_settings\<lparr>timeout := 0\<rparr>) (\<lambda>i. 0) None 0)
             \<lparr>call_count := 999\<rparr>) = Inr (RunIsComplete, sa)"
    by (simp add: runner_defs ex_timeout_settings_def ex_clock_def sa_def
      ex_origin_def ex_budget_state_def exit_with_def Let_def)
  have b: "test_function ex_clock ex_origin
          ((ConjectureRunner ex_settings (\<lambda>i. 0) None 0)\<lparr>call_count := 999\<rparr>)
            = Inr (RunIsComplete, sb)"
    by (simp add: runner_defs ex_settings_def ex_clock_def sb_def
      ex_origin_def exit_with_def Let_def)
  have c: "test_function ex_clock ex_failing (ConjectureRunner ex_settings (\<lambda>i. 0) None 0)
            = Inr (RunIsComplete, sc)"
    by (simp add: runner_defs ex_settings_def ex_clock_def sc_def
      ex_failing_def exit_with_def Let_def)
  have ta: "\<not> (timeout (settings sa) > 0
               \<and> time_at_end ex_clock \<ge> start_time sa + timeout (settings sa))"
    by (simp add: sa_def ex_budget_state_def ex_timeout_settings_def runner_defs)
  have tb: "\<not> (timeout (settings sb) > 0
               \<and> time_at_end ex_clock \<ge> start_time sb + timeout (settings sb))"
    by (simp add: sb_def ex_settings_def runner_defs)
  have tc: "\<not> (timeout (settings sc) > 0
               \<and> time_at_end ex_clock \<ge> start_time sc + timeout (settings sc))"
    by (simp add: sc_def ex_settings_def runner_defs)
  have ha: "interesting_examples sa = [] \<and> valid_examples sa \<ge> max_examples (settings sa)"
    by (simp add: sa_def ex_budget_state_def ex_timeout_settings_def runner_defs)
  have hb: "interesting_examples sb = [] \<and> valid_examples sb < max_examples (settings sb)
         \<and> call_count sb \<ge> max (max_examples (settings sb) * 10) 1000"
    by (simp add: sb_def ex_settings_def runner_defs)
  have hc: "interesting_examples sc \<noteq> []" by (simp add: sc_def)
  show ?thesis
    using budget_exits [OF a ta] budget_exits [OF b tb] budget_exits [OF c tc]
      a b c ta tb tc ha hb hc
    by blast
qed

section \<open>The corpus replayed from the database\<close>














section \<open>Flaky replays\<close>

lemma ex_interesting_state_reached:
  "test_function ex_clock ex_interesting (ConjectureRunner ex_settings (\<lambda>i. 0) None 0)
     = Inr (Returned (), ex_interesting_state)"
  by (simp add: runner_defs ex_settings_def ex_clock_def ex_interesting_def
      ex_interesting_state_def Let_def)

text \<open>
  Claim C9, as stated: if the replay of a stored interesting example yields a status
  other than interesting, the run exits with reason \<open>flaky\<close>. Here the replay is valid
  and draws nothing, so the root of the tree becomes a dead leaf, and \<open>test_function\<close>
  itself ends the run with reason \<open>finished\<close> before the status is compared.
\<close>

theorem flaky_exit_counterexample:
  "status (run_test ex_flaky_environment (call_count ex_interesting_state)
             (buffer ex_interesting)) \<noteq> INTERESTING
   \<and> confirm_interesting_examples ex_flaky_environment ex_interesting_state
       = Inr (RunIsComplete, ex_exhausted_state)
   \<and> exit_reason ex_exhausted_state = Some Finished"
proof -
  have "confirm_interesting_examples ex_flaky_environment ex_interesting_state
       = Inr (RunIsComplete, ex_exhausted_state)"
    by (simp add: confirm_interesting_examples_def replay_def ex_flaky_environment_def
        runner_defs ex_settings_def ex_clock_def ex_interesting_def ex_empty_valid_def
        ex_interesting_state_def ex_exhausted_state_def exit_with_def sort_key_buffer_def
        Let_def insert_commute)
  then show ?thesis
    by (simp add: ex_flaky_environment_def ex_empty_valid_def ex_exhausted_state_def)
qed


lemma tree_walk_exit_reason:
  "tree_walk d i bs n idx s = Inr (n', idx', s') \<Longrightarrow> exit_reason s' = exit_reason s"
proof (induction bs arbitrary: i n idx s)
  case Nil
  then show ?case by simp
next
  case (Cons b bs)
  have "exit_reason (note_position d i b n s) = exit_reason s"
    by (simp add: note_position_def Let_def split: option.splits)
  moreover have "\<And>k s1 s2. descend b n s1 = Inr (k, s2) \<Longrightarrow> exit_reason s2 = exit_reason s1"
    by (auto simp: descend_def Let_def split: sum.splits option.splits if_splits)
  ultimately show ?case
    using Cons.prems
    by (auto split: sum.splits if_splits dest!: Cons.IH)
qed

lemma record_block_sizes_exit_reason:
  "exit_reason (record_block_sizes bounds idx s) = exit_reason s"
  by (induction bounds idx s rule: record_block_sizes.induct) auto

lemma mark_dead_exit_reason:
  "mark_dead js s = Inr s' \<Longrightarrow> exit_reason s' = exit_reason s"
proof (induction js arbitrary: s)
  case Nil
  then show ?case by simp
next
  case (Cons j js)
  show ?case
    using Cons.prems
    by (auto simp: Let_def split: sum.splits if_splits dest!: Cons.IH)
qed

lemma update_tree_exit_reason:
  "update_tree d s = Inr s' \<Longrightarrow> exit_reason s' = exit_reason s"
  by (auto simp: update_tree_def Let_def record_block_sizes_exit_reason
      split: sum.splits prod.splits if_splits
      dest!: tree_walk_exit_reason mark_dead_exit_reason)

lemma update_interesting_exit_reason:
  "exit_reason (update_interesting d s) = exit_reason s"
  by (simp add: update_interesting_def Let_def split: option.splits)

lemma record_result_exit_reason:
  "record_result d s = Inr s' \<Longrightarrow> exit_reason s' = exit_reason s"
  by (auto simp: record_result_def Let_def update_interesting_exit_reason
      reset_tree_to_empty_def
      split: sum.splits prod.splits if_splits dest!: update_tree_exit_reason)

lemma check_exit_not_Flaky: "check_exit clk d s \<noteq> Some Flaky"
  by (simp add: check_exit_def)

lemma test_function_exit_reason:
  assumes "test_function clk d s = Inr (out, s')"
  shows "(out = Returned () \<longrightarrow> exit_reason s' = exit_reason s)
       \<and> (out = RunIsComplete \<longrightarrow> exit_reason s' \<noteq> Some Flaky)"
  using assms
proof (cases rule: test_function_cases)
  case (1 s1 reason)
  then show ?thesis using check_exit_not_Flaky [of clk d s1] by auto
next
  case (2 s1)
  then show ?thesis
    using record_result_exit_reason [OF 2(1)] record_for_health_check_frame [OF 2(4)]
    by simp
qed

lemma replay_exit_reason:
  assumes "replay env b s = Inr (out, s')"
  shows "(\<forall>r. out = Returned r \<longrightarrow> exit_reason s' = exit_reason s
            \<and> r = run_test env (call_count s) b)
       \<and> (out = RunIsComplete \<longrightarrow> exit_reason s' \<noteq> Some Flaky)"
  using assms
  by (auto simp: replay_def Let_def split: sum.splits prod.splits outcome.splits
      dest!: test_function_exit_reason)

lemma replay_interesting_append:
  "replay_interesting env (xs @ ys) s =
     (case replay_interesting env xs s of
        Inl e \<Rightarrow> Inl e
      | Inr (Returned u, s1) \<Rightarrow> replay_interesting env ys s1
      | Inr (RunIsComplete, s1) \<Rightarrow> Inr (RunIsComplete, s1))"
proof (induction xs arbitrary: s)
  case Nil
  show ?case by simp
next
  case (Cons x xs)
  show ?case
    by (auto simp: Cons.IH exit_with_def split: sum.splits prod.splits outcome.splits)
qed

lemma replay_interesting_flaky_position:
  "replay_interesting env ds s = Inr (out, s') \<Longrightarrow> exit_reason s \<noteq> Some Flaky
     \<Longrightarrow> exit_reason s' = Some Flaky
     \<Longrightarrow> \<exists>ds1 d ds2 s1 s2. ds = ds1 @ d # ds2
           \<and> replay_interesting env ds1 s = Inr (Returned (), s1)
           \<and> replay env (buffer d) s1
               = Inr (Returned (run_test env (call_count s1) (buffer d)), s2)
           \<and> status (run_test env (call_count s1) (buffer d)) \<noteq> INTERESTING
           \<and> out = RunIsComplete \<and> s' = s2\<lparr>exit_reason := Some Flaky\<rparr>"
proof (induction ds arbitrary: s)
  case Nil
  then show ?case by simp
next
  case (Cons d ds)
  from Cons.prems(1) have st: "status d = INTERESTING"
    by (auto split: if_splits)
  from Cons.prems(1) st obtain o1 s1 where r: "replay env (buffer d) s = Inr (o1, s1)"
    by (auto split: sum.splits)
  show ?case
  proof (cases o1)
    case RunIsComplete
    then have "s' = s1" using Cons.prems(1) st r by simp
    then show ?thesis using replay_exit_reason [OF r] RunIsComplete Cons.prems(3) by simp
  next
    case (Returned x)
    then have x: "x = run_test env (call_count s) (buffer d)" "exit_reason s1 = exit_reason s"
      using replay_exit_reason [OF r] by auto
    show ?thesis
    proof (cases "status x = INTERESTING")
      case False
      then have "out = RunIsComplete \<and> s' = s1\<lparr>exit_reason := Some Flaky\<rparr>"
        using Cons.prems(1) st r Returned by (auto simp: exit_with_def)
      moreover have "replay_interesting env [] s = Inr (Returned (), s)" by simp
      moreover have "d # ds = [] @ d # ds" by simp
      ultimately show ?thesis using r Returned x False by blast
    next
      case True
      then have next_run: "replay_interesting env ds s1 = Inr (out, s')"
        using Cons.prems(1) st r Returned by simp
      have "exit_reason s1 \<noteq> Some Flaky" using x Cons.prems(2) by simp
      from Cons.IH [OF next_run this Cons.prems(3)] obtain ds1 d' ds2 t1 t2 where
        p: "ds = ds1 @ d' # ds2" "replay_interesting env ds1 s1 = Inr (Returned (), t1)"
          "replay env (buffer d') t1
             = Inr (Returned (run_test env (call_count t1) (buffer d')), t2)"
          "status (run_test env (call_count t1) (buffer d')) \<noteq> INTERESTING"
          "out = RunIsComplete \<and> s' = t2\<lparr>exit_reason := Some Flaky\<rparr>"
        by blast
      have "replay_interesting env (d # ds1) s = Inr (Returned (), t1)"
        using st r Returned True p(2) by simp
      moreover have "d # ds = (d # ds1) @ d' # ds2" using p(1) by simp
      ultimately show ?thesis using p(3,4,5) by blast
    qed
  qed
qed

text \<open>
  Claim C9, amended. The first loop of \<open>shrink_interesting_examples\<close> replays the
  stored examples one after the other. If the examples before a stored example were
  replayed and the loop went on, and the replay of that example returns from
  \<open>test_function\<close> (the call does not itself end the run, by timeout, exhausted tree
  or shrink limit) with a status other than interesting, the run exits with reason
  \<open>flaky\<close>. And if the loop exits with reason \<open>flaky\<close>, it does so at a stored
  example whose replay, the call of the test function on its buffer at that moment,
  returned a status other than interesting; so when every replay yields an interesting
  result the run does not exit \<open>flaky\<close>.
\<close>

theorem flaky_exit:
  "(replay_interesting env ds1 s = Inr (Returned (), s1) \<and> status d = INTERESTING
      \<and> replay env (buffer d) s1 = Inr (Returned r, s2) \<and> status r \<noteq> INTERESTING \<longrightarrow>
      r = run_test env (call_count s1) (buffer d)
      \<and> replay_interesting env (ds1 @ d # ds2) s
          = Inr (RunIsComplete, s2\<lparr>exit_reason := Some Flaky\<rparr>))
   \<and> (confirm_interesting_examples env s0 = Inr (out, s') \<and> exit_reason s0 \<noteq> Some Flaky
      \<and> exit_reason s' = Some Flaky \<longrightarrow>
      (\<exists>ds1 d ds2 s1 s2.
         sort_key (\<lambda>d. sort_key_buffer (buffer d)) (map snd (interesting_examples s0))
           = ds1 @ d # ds2
         \<and> replay_interesting env ds1 s0 = Inr (Returned (), s1)
         \<and> replay env (buffer d) s1
             = Inr (Returned (run_test env (call_count s1) (buffer d)), s2)
         \<and> status (run_test env (call_count s1) (buffer d)) \<noteq> INTERESTING
         \<and> out = RunIsComplete \<and> s' = s2\<lparr>exit_reason := Some Flaky\<rparr>))"
proof (intro conjI impI)
  assume a: "replay_interesting env ds1 s = Inr (Returned (), s1) \<and> status d = INTERESTING
      \<and> replay env (buffer d) s1 = Inr (Returned r, s2) \<and> status r \<noteq> INTERESTING"
  then show "r = run_test env (call_count s1) (buffer d)"
    using replay_exit_reason [of env "buffer d" s1 "Returned r" s2] by simp
  from a show "replay_interesting env (ds1 @ d # ds2) s
      = Inr (RunIsComplete, s2\<lparr>exit_reason := Some Flaky\<rparr>)"
    by (simp add: replay_interesting_append exit_with_def)
next
  assume a: "confirm_interesting_examples env s0 = Inr (out, s') \<and> exit_reason s0 \<noteq> Some Flaky
      \<and> exit_reason s' = Some Flaky"
  let ?ds = "sort_key (\<lambda>d. sort_key_buffer (buffer d)) (map snd (interesting_examples s0))"
  have "\<not> (shrink \<notin> phases (settings s0) \<or> interesting_examples s0 = [])"
  proof
    assume "shrink \<notin> phases (settings s0) \<or> interesting_examples s0 = []"
    then have "s' = s0" using a by (simp add: confirm_interesting_examples_def)
    then show False using a by simp
  qed
  then have "replay_interesting env ?ds s0 = Inr (out, s')"
    using a by (simp add: confirm_interesting_examples_def)
  from replay_interesting_flaky_position [OF this] a
  show "\<exists>ds1 d ds2 s1 s2. ?ds = ds1 @ d # ds2
         \<and> replay_interesting env ds1 s0 = Inr (Returned (), s1)
         \<and> replay env (buffer d) s1
             = Inr (Returned (run_test env (call_count s1) (buffer d)), s2)
         \<and> status (run_test env (call_count s1) (buffer d)) \<noteq> INTERESTING
         \<and> out = RunIsComplete \<and> s' = s2\<lparr>exit_reason := Some Flaky\<rparr>"
    by blast
qed

theorem flaky_exit_witness:
  "replay_interesting ex_environment [] ex_interesting_state
     = Inr (Returned (), ex_interesting_state)
   \<and> status ex_interesting = INTERESTING
   \<and> replay ex_environment (buffer ex_interesting) ex_interesting_state
       = Inr (Returned (ex_overrun [2]),
              ex_interesting_state\<lparr>call_count := 2,
                target_selector := \<lparr>best_status = OVERRUN, pool_size = 100,
                  fresh_examples = [ex_overrun [2]], used_examples = []\<rparr>\<rparr>)
   \<and> status (ex_overrun [2]) \<noteq> INTERESTING
   \<and> ex_overrun [2]
       = run_test ex_environment (call_count ex_interesting_state) (buffer ex_interesting)
   \<and> replay_interesting ex_environment ([] @ ex_interesting # []) ex_interesting_state
       = Inr (RunIsComplete,
              ex_interesting_state\<lparr>call_count := 2,
                target_selector := \<lparr>best_status = OVERRUN, pool_size = 100,
                  fresh_examples = [ex_overrun [2]], used_examples = []\<rparr>,
                exit_reason := Some Flaky\<rparr>)
   \<and> confirm_interesting_examples ex_environment ex_interesting_state
       = Inr (RunIsComplete,
              ex_interesting_state\<lparr>call_count := 2,
                target_selector := \<lparr>best_status = OVERRUN, pool_size = 100,
                  fresh_examples = [ex_overrun [2]], used_examples = []\<rparr>,
                exit_reason := Some Flaky\<rparr>)
   \<and> exit_reason ex_interesting_state \<noteq> Some Flaky
   \<and> (\<exists>ds1 d ds2 s1 s2.
         sort_key (\<lambda>d. sort_key_buffer (buffer d))
             (map snd (interesting_examples ex_interesting_state))
           = ds1 @ d # ds2
         \<and> replay_interesting ex_environment ds1 ex_interesting_state = Inr (Returned (), s1)
         \<and> replay ex_environment (buffer d) s1
             = Inr (Returned (run_test ex_environment (call_count s1) (buffer d)), s2)
         \<and> status (run_test ex_environment (call_count s1) (buffer d)) \<noteq> INTERESTING)"
proof -
  define s1 where "s1 = ex_interesting_state\<lparr>call_count := 2,
      target_selector := \<lparr>best_status = OVERRUN, pool_size = 100,
        fresh_examples = [ex_overrun [2]], used_examples = []\<rparr>\<rparr>"
  have st: "status ex_interesting = INTERESTING" "status (ex_overrun [2]) \<noteq> INTERESTING"
    "exit_reason ex_interesting_state \<noteq> Some Flaky"
    by (simp_all add: ex_interesting_def ex_overrun_def ex_interesting_state_def runner_defs)
  have nil: "replay_interesting ex_environment [] ex_interesting_state
     = Inr (Returned (), ex_interesting_state)" by simp
  have r: "replay ex_environment (buffer ex_interesting) ex_interesting_state
       = Inr (Returned (ex_overrun [2]), s1)"
    by (simp add: replay_def ex_environment_def runner_defs ex_settings_def ex_clock_def
        ex_interesting_def ex_overrun_def ex_interesting_state_def s1_def Let_def)
  have c: "confirm_interesting_examples ex_environment ex_interesting_state
       = Inr (RunIsComplete, s1\<lparr>exit_reason := Some Flaky\<rparr>)"
    using r st
    by (simp add: confirm_interesting_examples_def ex_interesting_state_def exit_with_def
        runner_defs ex_settings_def)
  have e: "exit_reason (s1\<lparr>exit_reason := Some Flaky\<rparr>) = Some Flaky" by simp
  note t = flaky_exit [of ex_environment "[]" ex_interesting_state ex_interesting_state
      ex_interesting "ex_overrun [2]" s1 "[]" ex_interesting_state RunIsComplete
      "s1\<lparr>exit_reason := Some Flaky\<rparr>"]
  have a: "ex_overrun [2]
       = run_test ex_environment (call_count ex_interesting_state) (buffer ex_interesting)
     \<and> replay_interesting ex_environment ([] @ ex_interesting # []) ex_interesting_state
       = Inr (RunIsComplete, s1\<lparr>exit_reason := Some Flaky\<rparr>)"
    using t nil st r by blast
  have b: "\<exists>ds1 d ds2 t1 t2.
         sort_key (\<lambda>d. sort_key_buffer (buffer d))
             (map snd (interesting_examples ex_interesting_state))
           = ds1 @ d # ds2
         \<and> replay_interesting ex_environment ds1 ex_interesting_state = Inr (Returned (), t1)
         \<and> replay ex_environment (buffer d) t1
             = Inr (Returned (run_test ex_environment (call_count t1) (buffer d)), t2)
         \<and> status (run_test ex_environment (call_count t1) (buffer d)) \<noteq> INTERESTING"
    using t c st e by blast
  show ?thesis
    using st nil r a b c unfolding s1_def by blast
qed

section \<open>Stored leaves and their buffers\<close>

lemma tree_paths_init: "tree_paths (\<lambda>n. []) [Branch Map.empty]"
  by (auto simp: tree_paths_def)

lemma tree_paths_grow:
  assumes tp: "tree_paths path t" and n: "n < length t" and br: "t ! n = Branch children"
    and fresh: "children b = None"
  shows "tree_paths (path(length t := path n @ [b]))
           ((t @ [Branch Map.empty])[n := Branch (children(b \<mapsto> length t))])"
proof -
  let ?L = "length t"
  let ?t' = "(t @ [Branch Map.empty])[n := Branch (children(b \<mapsto> ?L))]"
  let ?p' = "path(?L := path n @ [b])"
  have nth: "\<And>m. m < ?L \<Longrightarrow> m \<noteq> n \<Longrightarrow> ?t' ! m = t ! m"
    by (simp add: nth_append)
  have nthn: "?t' ! n = Branch (children(b \<mapsto> ?L))" using n by simp
  have nthL: "?t' ! ?L = Branch Map.empty" using n by (simp add: nth_append)
  have old: "\<And>m ch c k. m < ?L \<Longrightarrow> t ! m = Branch ch \<Longrightarrow> ch c = Some k
      \<Longrightarrow> k < ?L \<and> path k = path m @ [c]"
    using tp unfolding tree_paths_def by blast
  have edges: "\<And>m ch c k. m < length ?t' \<Longrightarrow> ?t' ! m = Branch ch \<Longrightarrow> ch c = Some k
      \<Longrightarrow> k < length ?t' \<and> ?p' k = ?p' m @ [c]"
  proof -
    fix m ch c k
    assume m: "m < length ?t'" and b: "?t' ! m = Branch ch" and c: "ch c = Some k"
    consider "m = n" | "m = ?L" | "m < ?L" "m \<noteq> n" using m by force
    then show "k < length ?t' \<and> ?p' k = ?p' m @ [c]"
    proof cases
      case 1
      then have ch: "ch = children(b \<mapsto> ?L)" using b nthn by simp
      show ?thesis
      proof (cases "c = b")
        case True
        then show ?thesis using ch c 1 n by simp
      next
        case False
        then have "children c = Some k" using ch c by simp
        from old [OF n br this] show ?thesis using 1 n by auto
      qed
    next
      case 2
      then have "ch = Map.empty" using b nthL by simp
      then show ?thesis using c by simp
    next
      case 3
      then have "t ! m = Branch ch" using b nth by simp
      from old [OF 3(1) this c] show ?thesis using 3 by auto
    qed
  qed
  have leaves: "\<And>m d. m < length ?t' \<Longrightarrow> ?t' ! m = Leaf d
      \<Longrightarrow> buffer d = ?p' m \<and> status d \<noteq> OVERRUN"
  proof -
    fix m d
    assume m: "m < length ?t'" and l: "?t' ! m = Leaf d"
    have "m \<noteq> n" using l nthn by auto
    moreover have "m \<noteq> ?L" using l nthL by auto
    ultimately have "m < ?L" "t ! m = Leaf d" using m l nth by auto
    then show "buffer d = ?p' m \<and> status d \<noteq> OVERRUN"
      using tp unfolding tree_paths_def by auto
  qed
  have "?t' \<noteq> []" by simp
  moreover have "?p' 0 = []" using tp n unfolding tree_paths_def by auto
  ultimately show ?thesis
    unfolding tree_paths_def using edges leaves by blast
qed

lemma tree_paths_store:
  assumes tp: "tree_paths path t" and n: "n < length t" and buf: "buffer d = path n"
    and st: "status d \<noteq> OVERRUN"
  shows "tree_paths path (t[n := Leaf d])"
proof -
  have nth: "\<And>m. m < length t \<Longrightarrow> m \<noteq> n \<Longrightarrow> t[n := Leaf d] ! m = t ! m" by simp
  have nthn: "t[n := Leaf d] ! n = Leaf d" using n by simp
  show ?thesis
    unfolding tree_paths_def
  proof (intro conjI allI impI)
    show "t[n := Leaf d] \<noteq> []" using tp by (simp add: tree_paths_def)
    show "path 0 = []" using tp by (simp add: tree_paths_def)
  next
    fix m ch c k
    assume a: "m < length (t[n := Leaf d]) \<and> t[n := Leaf d] ! m = Branch ch \<and> ch c = Some k"
    then have "m \<noteq> n" using nthn by auto
    then have "m < length t" "t ! m = Branch ch" using a by auto
    then have "k < length t \<and> path k = path m @ [c]"
      using tp a unfolding tree_paths_def by blast
    then show "k < length (t[n := Leaf d])" "path k = path m @ [c]" by auto
  next
    fix m d'
    assume a: "m < length (t[n := Leaf d]) \<and> t[n := Leaf d] ! m = Leaf d'"
    show "buffer d' = path m" "status d' \<noteq> OVERRUN"
    proof -
      have "buffer d' = path m \<and> status d' \<noteq> OVERRUN"
      proof (cases "m = n")
        case True
        then show ?thesis using a nthn buf st by auto
      next
        case False
        then have "m < length t" "t ! m = Leaf d'" using a by auto
        then show ?thesis using tp unfolding tree_paths_def by blast
      qed
      then show "buffer d' = path m" "status d' \<noteq> OVERRUN" by auto
    qed
  qed
qed


lemma note_position_tree:
  "tree (note_position d i b n s) = tree s" "dead (note_position d i b n s) = dead s"
  by (simp_all add: note_position_def Let_def split: option.splits)

lemma descend_paths:
  assumes tp: "tree_paths path (tree s)" and n: "n < length (tree s)"
    and de: "descend b n s = Inr (k, s')"
  shows "\<exists>path'. tree_paths path' (tree s') \<and> (\<forall>m < length (tree s). path' m = path m)
           \<and> k < length (tree s') \<and> path' k = path n @ [b] \<and> dead s' = dead s
           \<and> length (tree s) \<le> length (tree s')"
proof -
  from de obtain children where ch: "tree_node s n = Inr children"
    by (auto simp: descend_def split: sum.splits)
  then have br: "tree s ! n = Branch children"
    using n by (auto simp: tree_node_def split: node.splits)
  show ?thesis
  proof (cases "children b")
    case (Some k0)
    then have "k = k0" "s' = s" using de ch
      by (auto simp: descend_def split: if_splits)
    moreover have "k0 < length (tree s) \<and> path k0 = path n @ [b]"
      using tp n br Some unfolding tree_paths_def by blast
    ultimately show ?thesis using tp by auto
  next
    case None
    then have k: "k = length (tree s)"
      and s': "s' = s\<lparr>tree := (tree s @ [Branch Map.empty])
                  [n := Branch (children(b \<mapsto> length (tree s)))]\<rparr>"
      using de ch by (auto simp: descend_def split: if_splits)
    let ?p = "path(length (tree s) := path n @ [b])"
    have "tree_paths ?p (tree s')"
      using tree_paths_grow [OF tp n br None] s' by simp
    moreover have "\<forall>m < length (tree s). ?p m = path m" by simp
    ultimately show ?thesis using k s' by (intro exI [of _ ?p]) simp
  qed
qed

lemma tree_walk_paths:
  "tree_paths path (tree s) \<Longrightarrow> n < length (tree s)
   \<Longrightarrow> tree_walk d i bs n idx s = Inr (n', idx', s')
   \<Longrightarrow> \<exists>path'. tree_paths path' (tree s') \<and> (\<forall>m < length (tree s). path' m = path m)
         \<and> n' < length (tree s') \<and> (n' \<in> dead s' \<or> path' n' = path n @ bs)
         \<and> dead s' = dead s \<and> length (tree s) \<le> length (tree s')"
proof (induction bs arbitrary: path s n i idx)
  case Nil
  then show ?case by auto
next
  case (Cons b bs)
  let ?s0 = "note_position d i b n s"
  from Cons.prems(3) obtain k s1 where de: "descend b n ?s0 = Inr (k, s1)"
    by (auto split: sum.splits)
  have tp0: "tree_paths path (tree ?s0)" and n0: "n < length (tree ?s0)"
    using Cons.prems by (simp_all add: note_position_tree)
  from descend_paths [OF tp0 n0 de] obtain p1 where
    p1: "tree_paths p1 (tree s1)" "\<forall>m < length (tree s). p1 m = path m"
      "k < length (tree s1)" "p1 k = path n @ [b]" "dead s1 = dead s"
      "length (tree s) \<le> length (tree s1)"
    by (auto simp: note_position_tree)
  show ?case
  proof (cases "k \<in> dead s1")
    case True
    then have "n' = k" "s' = s1" using Cons.prems(3) de by auto
    then show ?thesis using p1 True by auto
  next
    case False
    then have "tree_walk d (i + 1) bs k (idx @ [n]) s1 = Inr (n', idx', s')"
      using Cons.prems(3) de by simp
    from Cons.IH [OF p1(1) p1(3) this] obtain p2 where
      p2: "tree_paths p2 (tree s')" "\<forall>m < length (tree s1). p2 m = p1 m"
        "n' < length (tree s')" "n' \<in> dead s' \<or> p2 n' = p1 k @ bs"
        "dead s' = dead s1" "length (tree s1) \<le> length (tree s')"
      by auto
    have "\<forall>m < length (tree s). p2 m = path m" using p1(2) p1(6) p2(2) by auto
    then show ?thesis using p1 p2 by (intro exI [of _ p2]) auto
  qed
qed

lemma record_block_sizes_tree:
  "tree (record_block_sizes bounds idx s) = tree s"
  "dead (record_block_sizes bounds idx s) = dead s"
  by (induction bounds idx s rule: record_block_sizes.induct) auto

lemma mark_dead_tree:
  "mark_dead js s = Inr s' \<Longrightarrow> tree s' = tree s"
proof (induction js arbitrary: s)
  case Nil
  then show ?case by simp
next
  case (Cons j js)
  show ?case
    using Cons.prems
    by (auto simp: Let_def split: sum.splits if_splits dest!: Cons.IH)
qed

lemma update_tree_ok:
  assumes ok: "tree_ok s" and up: "update_tree d s = Inr s'"
  shows "tree_ok s'"
proof -
  from ok obtain path where tp: "tree_paths path (tree s)" by (auto simp: tree_ok_def)
  then have ne: "tree s \<noteq> []" by (simp add: tree_paths_def)
  then have root: "0 < length (tree s)" by simp
  from up ne obtain n idx s1 where w: "tree_walk d 0 (buffer d) 0 [] s = Inr (n, idx, s1)"
    by (auto simp: update_tree_def split: sum.splits)
  from tree_walk_paths [OF tp root w] obtain p1 where
    p1: "tree_paths p1 (tree s1)" "\<forall>m < length (tree s). p1 m = path m"
      "n < length (tree s1)" "n \<in> dead s1 \<or> p1 n = path 0 @ buffer d"
    by auto
  have p0: "path 0 = []" using tp by (simp add: tree_paths_def)
  define s2 where "s2 = record_block_sizes (block_bounds d) idx s1"
  define s3 where "s3 = s2\<lparr>dead := dead s2 \<union> set (drop (cap s2) idx)\<rparr>"
  have t3: "tree s3 = tree s1" "dead s1 \<subseteq> dead s3"
    by (auto simp: s3_def s2_def record_block_sizes_tree)
  show ?thesis
  proof (cases "status d \<noteq> OVERRUN \<and> n \<notin> dead s3")
    case False
    then have "s' = s3" using up ne w by (auto simp: update_tree_def s3_def s2_def Let_def)
    then show ?thesis using p1(1) t3 by (auto simp: tree_ok_def)
  next
    case True
    then have m: "mark_dead (rev idx)
        (s3\<lparr>dead := insert n (dead s3), tree := (tree s3)[n := Leaf d]\<rparr>) = Inr s'"
      using up ne w by (auto simp: update_tree_def s3_def s2_def Let_def)
    have "n \<notin> dead s1" using True t3 by auto
    then have "buffer d = p1 n" using p1(4) p0 by simp
    then have "tree_paths p1 ((tree s3)[n := Leaf d])"
      using tree_paths_store [OF p1(1) p1(3)] True t3 by simp
    moreover have "tree s' = (tree s3)[n := Leaf d]"
      using mark_dead_tree [OF m] by simp
    ultimately show ?thesis by (auto simp: tree_ok_def)
  qed
qed

lemma tree_ok_init: "tree_ok (reset_tree_to_empty s)"
  using tree_paths_init by (auto simp: tree_ok_def reset_tree_to_empty_def)

lemma tree_ok_cong: "tree s' = tree s \<Longrightarrow> tree_ok s' = tree_ok s"
  by (simp add: tree_ok_def)

lemma record_result_ok:
  assumes "tree_ok s" and "record_result d s = Inr s'"
  shows "tree_ok s'"
proof -
  from assms(2) obtain sel rnd where a: "add (random_state s) d (target_selector s) = Inr (sel, rnd)"
    by (auto simp: record_result_def split: sum.splits)
  define s1 where "s1 = s\<lparr>target_selector := sel, random_state := rnd\<rparr>"
  define s2 where "s2 = (if status d = VALID
                     then s1\<lparr>valid_examples := valid_examples s1 + 1\<rparr> else s1)"
  define s3 where "s3 = (if call_count s2 mod CACHE_RESET_FREQUENCY = 0
                        \<and> interesting_examples s2 = []
                     then reset_tree_to_empty s2 else s2)"
  have "tree s2 = tree s" by (simp add: s2_def s1_def)
  then have "tree_ok s2" using assms(1) tree_ok_cong by blast
  then have ok3: "tree_ok s3" using tree_ok_init by (simp add: s3_def)
  have "record_result d s = (case update_tree d s3 of
      Inl e \<Rightarrow> Inl e | Inr s4 \<Rightarrow> Inr (update_interesting d s4))"
    by (simp add: record_result_def a Let_def s3_def s2_def s1_def)
  with assms(2) obtain s4 where u: "update_tree d s3 = Inr s4"
    and s': "s' = update_interesting d s4"
    by (auto split: sum.splits)
  have "tree s' = tree s4"
    using s' by (simp add: update_interesting_def Let_def split: option.splits)
  then show ?thesis using update_tree_ok [OF ok3 u] tree_ok_cong by blast
qed

lemma record_for_health_check_tree:
  "record_for_health_check d s = Inr s' \<Longrightarrow> tree s' = tree s"
  by (auto simp: record_for_health_check_def Let_def
      split: if_splits option.splits sum.splits)

lemma test_function_ok:
  assumes "tree_ok s" and "test_function clk d s = Inr (out, s')"
  shows "tree_ok s'"
  using assms(2)
proof (cases rule: test_function_cases)
  case (1 s1 reason)
  have "tree_ok (s\<lparr>call_count := call_count s + 1\<rparr>)"
    using assms(1) by (simp add: tree_ok_def)
  from record_result_ok [OF this 1(1)] 1(4) show ?thesis by (simp add: tree_ok_def)
next
  case (2 s1)
  have "tree_ok (s\<lparr>call_count := call_count s + 1\<rparr>)"
    using assms(1) by (simp add: tree_ok_def)
  from record_result_ok [OF this 2(1)] record_for_health_check_tree [OF 2(4)]
  show ?thesis by (simp add: tree_ok_def)
qed

lemma reachable_tree_ok: "reachable s \<Longrightarrow> tree_ok s"
proof (induction rule: reachable.induct)
  case (init st rnd key now)
  show ?case using tree_ok_init by (simp add: ConjectureRunner_def)
next
  case (call s clk d out s')
  then show ?case using test_function_ok by blast
next
  case (novel_prefix s p s')
  then show ?case
    by (auto simp: generate_novel_prefix_def tree_ok_def split: sum.splits)
qed (simp_all add: tree_ok_def)


lemma length_rewrite_from: "length (rewrite_from s n bs) = length bs"
  by (induction bs arbitrary: n) (auto simp: Let_def split: sum.splits)

lemma rewrite_from_plain:
  "forced s = Map.empty \<Longrightarrow> masks s = Map.empty \<Longrightarrow> rewrite_from s n bs = bs"
  by (induction bs arbitrary: n) (auto simp: Let_def rewrite_byte_def split: sum.splits)

lemma cached_lookup_path:
  "tree_paths path (tree s) \<Longrightarrow> cached_lookup_from s n bs = Inr (Some d)
   \<Longrightarrow> status d \<noteq> OVERRUN
       \<and> (\<exists>k. 0 < k \<and> k \<le> length bs \<and> buffer d = path n @ take k (rewrite_from s n bs))"
proof (induction bs arbitrary: n)
  case Nil
  then show ?case by simp
next
  case (Cons c cs)
  let ?c = "rewrite_byte s n c"
  from Cons.prems(2) obtain n' where ch: "tree_child s n ?c = Inr n'"
    by (auto simp: Let_def split: if_splits sum.splits)
  then obtain children where br: "n < length (tree s)" "tree s ! n = Branch children"
    "children ?c = Some n'"
    by (auto simp: tree_child_def tree_node_def split: if_splits node.splits option.splits)
  then have p: "n' < length (tree s)" "path n' = path n @ [?c]"
    using Cons.prems(1) unfolding tree_paths_def by blast+
  have rw: "rewrite_from s n (c # cs) = ?c # rewrite_from s n' cs"
    using ch by (simp add: Let_def)
  show ?case
  proof (cases "tree s ! n'")
    case (Leaf d')
    then have "d' = d" using Cons.prems(2) ch p by (simp add: Let_def)
    then have "buffer d = path n' \<and> status d \<noteq> OVERRUN"
      using Cons.prems(1) p Leaf unfolding tree_paths_def by blast
    then show ?thesis using p rw by (auto intro: exI [of _ 1])
  next
    case (Branch ch')
    then have "cached_lookup_from s n' cs = Inr (Some d)"
      using Cons.prems(2) ch p by (simp add: Let_def)
    from Cons.IH [OF Cons.prems(1) this] obtain k where
      k: "status d \<noteq> OVERRUN" "0 < k" "k \<le> length cs"
        "buffer d = path n' @ take k (rewrite_from s n' cs)"
      by auto
    then show ?thesis using p rw by (auto intro: exI [of _ "Suc k"])
  qed
qed

text \<open>
  Claim C2, as stated: the buffer of a stored leaf that \<open>cached_test_function(b)\<close>
  returns is a prefix of \<open>b\<close>. In the example state the second position is forced to
  the byte 5; the walk looks up the forced byte in place of the byte 7 of the buffer, and
  the leaf it returns has the buffer \<open>[1, 5]\<close>, which is no prefix of \<open>[1, 7]\<close>.
\<close>

theorem cached_leaf_counterexample:
  "cached_test_function ex_environment [1, 7] ex_forced_state
     = Inr (Returned ex_forced_data, ex_forced_state)
   \<and> buffer ex_forced_data = [1, 5]
   \<and> \<not> prefix (buffer ex_forced_data) [1, 7]"
proof -
  have "cached_lookup ex_forced_state [1, 7] = Inr (Some ex_forced_data)"
    by (simp add: lookup_defs ex_forced_state_tree)
  then show ?thesis by (simp add: cached_test_function_def ex_forced_data_def)
qed

text \<open>
  Claim C2, amended. In every state that the runner reaches, if
  \<open>cached_test_function(b)\<close> returns a stored leaf \<open>d\<close>, then \<open>d.buffer\<close> is a prefix
  of the buffer that the walk reads: \<open>b\<close> with each byte replaced, at its node, by the
  forced value if the node has one and then masked if the node has a mask. It is no
  longer than \<open>b\<close>, it is a prefix of \<open>b\<close> itself when the tree has no forced and no
  masked node, and \<open>d.status\<close> is not an overrun.
\<close>

theorem cached_leaf_prefix:
  assumes "reachable s" and "cached_lookup s b = Inr (Some d)"
  shows "cached_test_function env b s = Inr (Returned d, s)
         \<and> prefix (buffer d) (rewritten s b)
         \<and> length (buffer d) \<le> length b
         \<and> status d \<noteq> OVERRUN
         \<and> (forced s = Map.empty \<and> masks s = Map.empty \<longrightarrow> prefix (buffer d) b)"
proof -
  from reachable_tree_ok [OF assms(1)] obtain path where tp: "tree_paths path (tree s)"
    by (auto simp: tree_ok_def)
  then have p0: "path 0 = []" by (simp add: tree_paths_def)
  from cached_lookup_path [OF tp, of 0 b d] assms(2) obtain k where
    k: "status d \<noteq> OVERRUN" "k \<le> length b" "buffer d = take k (rewritten s b)"
    by (auto simp: cached_lookup_def rewritten_def p0)
  have pre: "prefix (buffer d) (rewritten s b)"
    using k(3) by (simp add: take_is_prefix)
  have len: "length (buffer d) \<le> length b"
    using k by (simp add: rewritten_def length_rewrite_from)
  have plain: "forced s = Map.empty \<and> masks s = Map.empty \<longrightarrow> prefix (buffer d) b"
    using pre by (auto simp: rewritten_def rewrite_from_plain)
  show ?thesis
    using assms(2) k(1) pre len plain by (simp add: cached_test_function_def)
qed

lemma ex_interesting_state_reachable: "reachable ex_interesting_state"
  using reachable.call [OF reachable.init ex_interesting_state_reached] .

theorem cached_leaf_prefix_witness:
  "reachable ex_forced_state
   \<and> cached_lookup ex_forced_state [1, 7] = Inr (Some ex_forced_data)
   \<and> rewritten ex_forced_state [1, 7] = [1, 5]
   \<and> prefix (buffer ex_forced_data) (rewritten ex_forced_state [1, 7])
   \<and> status ex_forced_data \<noteq> OVERRUN
   \<and> reachable ex_interesting_state
   \<and> cached_lookup ex_interesting_state [2, 9] = Inr (Some ex_interesting)
   \<and> forced ex_interesting_state = Map.empty \<and> masks ex_interesting_state = Map.empty
   \<and> prefix (buffer ex_interesting) [2, 9]"
proof -
  have a: "cached_lookup ex_forced_state [1, 7] = Inr (Some ex_forced_data)"
    by (simp add: lookup_defs ex_forced_state_tree)
  have r: "rewritten ex_forced_state [1, 7] = [1, 5]"
    by (simp add: rewritten_def lookup_defs ex_forced_state_tree)
  have b: "cached_lookup ex_interesting_state [2, 9] = Inr (Some ex_interesting)"
    by (simp add: lookup_defs ex_interesting_state_def runner_defs)
  have e: "forced ex_interesting_state = Map.empty \<and> masks ex_interesting_state = Map.empty"
    by (simp add: ex_interesting_state_def runner_defs)
  show ?thesis
    using cached_leaf_prefix [OF ex_forced_state_reachable a, of ex_environment]
      cached_leaf_prefix [OF ex_interesting_state_reachable b, of ex_environment]
      ex_forced_state_reachable ex_interesting_state_reachable a b r e
    by simp
qed

section \<open>Prescreening, stored leaves and cache hits\<close>

lemma lookup_iff_stored_leaf_from:
  "cached_lookup_from s n bs = Inr (Some d) \<longleftrightarrow>
     (\<exists>k. 0 < k \<and> k \<le> length bs
        \<and> stored_leaf_from s n (take k (rewrite_from s n bs)) = Some d)"
proof (induction bs arbitrary: n)
  case Nil
  show ?case by simp
next
  case (Cons c cs)
  let ?c = "rewrite_byte s n c"
  show ?case
  proof (cases "tree_child s n ?c")
    case (Inl e)
    then have l: "cached_lookup_from s n (c # cs) \<noteq> Inr (Some d)"
      by (auto simp: Let_def)
    have "\<And>k. 0 < k \<Longrightarrow> stored_leaf_from s n (take k (rewrite_from s n (c # cs))) = None"
    proof -
      fix k :: nat
      assume "0 < k"
      then obtain j where "k = Suc j" by (cases k) auto
      then show "stored_leaf_from s n (take k (rewrite_from s n (c # cs))) = None"
        using Inl by (simp add: Let_def stored_leaf_from_def)
    qed
    then show ?thesis using l by auto
  next
    case (Inr n')
    let ?rest = "rewrite_from s n' cs"
    have rw: "rewrite_from s n (c # cs) = ?c # ?rest" using Inr by (simp add: Let_def)
    have step: "\<And>j. stored_leaf_from s n (take (Suc j) (?c # ?rest))
        = stored_leaf_from s n' (take j ?rest)"
      using Inr by (simp add: stored_leaf_from_def)
    have rhs: "(\<exists>k. 0 < k \<and> k \<le> length (c # cs)
          \<and> stored_leaf_from s n (take k (rewrite_from s n (c # cs))) = Some d)
        \<longleftrightarrow> stored_leaf_from s n' [] = Some d
          \<or> (\<exists>j. 0 < j \<and> j \<le> length cs \<and> stored_leaf_from s n' (take j ?rest) = Some d)"
      (is "?L \<longleftrightarrow> ?A \<or> ?B")
    proof
      assume ?L
      then obtain k where k: "0 < k" "k \<le> length (c # cs)"
        "stored_leaf_from s n (take k (?c # ?rest)) = Some d"
        using rw by auto
      then obtain j where j: "k = Suc j" by (cases k) auto
      then have "stored_leaf_from s n' (take j ?rest) = Some d" using k step by simp
      then show "?A \<or> ?B" using j k by (cases j) auto
    next
      assume "?A \<or> ?B"
      then show ?L
      proof
        assume ?A
        then have "stored_leaf_from s n (take (Suc 0) (?c # ?rest)) = Some d"
          using step [of 0] by simp
        then show ?L using rw by (intro exI [of _ "Suc 0"]) simp
      next
        assume ?B
        then obtain j where j: "0 < j" "j \<le> length cs"
          "stored_leaf_from s n' (take j ?rest) = Some d" by auto
        then have "stored_leaf_from s n (take (Suc j) (?c # ?rest)) = Some d"
          using step by simp
        then show ?L using rw j by (intro exI [of _ "Suc j"]) simp
      qed
    qed
    have deeper_none: "\<And>j. 0 < j \<Longrightarrow> j \<le> length cs
        \<Longrightarrow> \<not> (\<exists>children. n' < length (tree s) \<and> tree s ! n' = Branch children)
        \<Longrightarrow> stored_leaf_from s n' (take j ?rest) = None"
    proof -
      fix j :: nat
      assume j: "0 < j" "j \<le> length cs"
        and nb: "\<not> (\<exists>children. n' < length (tree s) \<and> tree s ! n' = Branch children)"
      have "length ?rest = length cs" by (rule length_rewrite_from)
      then obtain x xs where "take j ?rest = x # xs"
        using j by (cases "take j ?rest") auto
      moreover have "\<exists>e. tree_child s n' x = Inl e"
        using nb by (auto simp: tree_child_def tree_node_def split: node.splits)
      ultimately show "stored_leaf_from s n' (take j ?rest) = None"
        by (auto simp: stored_leaf_from_def)
    qed
    show ?thesis
    proof (cases "length (tree s) \<le> n'")
      case True
      then have "cached_lookup_from s n (c # cs) \<noteq> Inr (Some d)"
        using Inr by (simp add: Let_def)
      moreover have "\<not> ?A" using True by (simp add: stored_leaf_from_def)
      moreover have "\<not> ?B" using deeper_none True by fastforce
      ultimately show ?thesis using rhs by blast
    next
      case False
      show ?thesis
      proof (cases "tree s ! n'")
        case (Leaf d')
        then have "cached_lookup_from s n (c # cs) = Inr (Some d')"
          using Inr False by (simp add: Let_def)
        moreover have "?A \<longleftrightarrow> d' = d" using Leaf False by (simp add: stored_leaf_from_def)
        moreover have "\<not> ?B" using deeper_none Leaf by fastforce
        ultimately show ?thesis using rhs by auto
      next
        case (Branch children)
        then have "cached_lookup_from s n (c # cs) = cached_lookup_from s n' cs"
          using Inr False by (simp add: Let_def)
        moreover have "\<not> ?A" using Branch False by (simp add: stored_leaf_from_def)
        ultimately show ?thesis using rhs Cons.IH [of n'] by simp
      qed
    qed
  qed
qed

lemma lookup_iff_leaf_on_walk:
  "cached_lookup s b = Inr (Some d) \<longleftrightarrow> leaf_on_walk s b d"
proof -
  have "leaf_on_walk s b d \<longleftrightarrow>
      (\<exists>k. 0 < k \<and> k \<le> length b
        \<and> stored_leaf_from s 0 (take k (rewrite_from s 0 b)) = Some d)"
    unfolding leaf_on_walk_def stored_leaf_def rewritten_def Bex_def
    by (metis atLeastAtMost_iff One_nat_def Suc_leI less_eq_Suc_le)
  then show ?thesis
    using lookup_iff_stored_leaf_from [of s 0 b d] by (simp add: cached_lookup_def)
qed


lemma leaves_dead_init: "leaves_dead (reset_tree_to_empty s)"
  by (auto simp: leaves_dead_def reset_tree_to_empty_def)

lemma leaves_dead_cong:
  "tree s' = tree s \<Longrightarrow> dead s \<subseteq> dead s' \<Longrightarrow> leaves_dead s \<Longrightarrow> leaves_dead s'"
  by (auto simp: leaves_dead_def)

lemma descend_leaves_dead:
  assumes ld: "leaves_dead s" and de: "descend b n s = Inr (k, s')"
  shows "leaves_dead s'"
proof -
  from de obtain children where ch: "tree_node s n = Inr children"
    by (auto simp: descend_def split: sum.splits)
  then have n: "n < length (tree s)" and br: "tree s ! n = Branch children"
    by (auto simp: tree_node_def split: node.splits if_splits)
  show ?thesis
  proof (cases "children b")
    case (Some k0)
    then have "s' = s" using de ch by (auto simp: descend_def split: if_splits)
    then show ?thesis using ld by simp
  next
    case None
    let ?L = "length (tree s)"
    let ?t' = "(tree s @ [Branch Map.empty])[n := Branch (children(b \<mapsto> ?L))]"
    from None have s': "s' = s\<lparr>tree := ?t'\<rparr>"
      using de ch by (auto simp: descend_def split: if_splits)
    have "\<And>m d. m < length ?t' \<Longrightarrow> ?t' ! m = Leaf d \<Longrightarrow> m \<in> dead s"
    proof -
      fix m d
      assume m: "m < length ?t'" and l: "?t' ! m = Leaf d"
      have "m \<noteq> n" using l n by auto
      moreover have "m \<noteq> ?L" using l n by (auto simp: nth_append)
      ultimately have "m < ?L" "tree s ! m = Leaf d" using m l by (auto simp: nth_append)
      then show "m \<in> dead s" using ld by (auto simp: leaves_dead_def)
    qed
    then show ?thesis using s' by (auto simp: leaves_dead_def)
  qed
qed

lemma tree_walk_leaves_dead:
  "leaves_dead s \<Longrightarrow> tree_walk d i bs n idx s = Inr (n', idx', s') \<Longrightarrow> leaves_dead s'"
proof (induction bs arbitrary: s n i idx)
  case Nil
  then show ?case by auto
next
  case (Cons b bs)
  let ?s0 = "note_position d i b n s"
  from Cons.prems(2) obtain k s1 where de: "descend b n ?s0 = Inr (k, s1)"
    by (auto split: sum.splits)
  have "leaves_dead ?s0"
    using Cons.prems(1) by (auto simp: leaves_dead_def note_position_tree)
  from descend_leaves_dead [OF this de] have l1: "leaves_dead s1" .
  show ?case
  proof (cases "k \<in> dead s1")
    case True
    then have "s' = s1" using Cons.prems(2) de by auto
    then show ?thesis using l1 by simp
  next
    case False
    then have "tree_walk d (i + 1) bs k (idx @ [n]) s1 = Inr (n', idx', s')"
      using Cons.prems(2) de by simp
    from Cons.IH [OF l1 this] show ?thesis .
  qed
qed

lemma mark_dead_dead: "mark_dead js s = Inr s' \<Longrightarrow> dead s \<subseteq> dead s'"
proof (induction js arbitrary: s)
  case Nil
  then show ?case by simp
next
  case (Cons j js)
  show ?case
    using Cons.prems
    by (auto simp: Let_def split: sum.splits if_splits dest!: Cons.IH)
qed

lemma update_tree_leaves_dead:
  assumes ld: "leaves_dead s" and up: "update_tree d s = Inr s'"
  shows "leaves_dead s'"
proof -
  from up have ne: "tree s \<noteq> []" by (auto simp: update_tree_def split: if_splits)
  from up ne obtain n idx s1 where w: "tree_walk d 0 (buffer d) 0 [] s = Inr (n, idx, s1)"
    by (auto simp: update_tree_def split: sum.splits)
  from tree_walk_leaves_dead [OF ld w] have l1: "leaves_dead s1" .
  define s2 where "s2 = record_block_sizes (block_bounds d) idx s1"
  define s3 where "s3 = s2\<lparr>dead := dead s2 \<union> set (drop (cap s2) idx)\<rparr>"
  have t3: "tree s3 = tree s1" "dead s1 \<subseteq> dead s3"
    by (auto simp: s3_def s2_def record_block_sizes_tree)
  from leaves_dead_cong [OF t3 l1] have l3: "leaves_dead s3" .
  show ?thesis
  proof (cases "status d \<noteq> OVERRUN \<and> n \<notin> dead s3")
    case False
    then have "s' = s3" using up ne w by (auto simp: update_tree_def s3_def s2_def Let_def)
    then show ?thesis using l3 by simp
  next
    case True
    let ?s4 = "s3\<lparr>dead := insert n (dead s3), tree := (tree s3)[n := Leaf d]\<rparr>"
    from True have m: "mark_dead (rev idx) ?s4 = Inr s'"
      using up ne w by (auto simp: update_tree_def s3_def s2_def Let_def)
    have "\<And>m d'. m < length (tree ?s4) \<Longrightarrow> tree ?s4 ! m = Leaf d' \<Longrightarrow> m \<in> dead ?s4"
    proof -
      fix m d'
      assume a: "m < length (tree ?s4)" "tree ?s4 ! m = Leaf d'"
      show "m \<in> dead ?s4"
      proof (cases "m = n")
        case True
        then show ?thesis by simp
      next
        case False
        then have "m < length (tree s3)" "tree s3 ! m = Leaf d'" using a by auto
        then show ?thesis using l3 by (auto simp: leaves_dead_def)
      qed
    qed
    then have "leaves_dead ?s4" unfolding leaves_dead_def by blast
    from leaves_dead_cong [OF mark_dead_tree [OF m] mark_dead_dead [OF m] this]
    show ?thesis .
  qed
qed

lemma update_interesting_tree:
  "tree (update_interesting d s) = tree s" "dead (update_interesting d s) = dead s"
  by (simp_all add: update_interesting_def Let_def split: option.splits)

lemma record_result_leaves_dead:
  assumes "leaves_dead s" and "record_result d s = Inr s'"
  shows "leaves_dead s'"
proof -
  from assms(2) obtain sel rnd where a: "add (random_state s) d (target_selector s) = Inr (sel, rnd)"
    by (auto simp: record_result_def split: sum.splits)
  define s1 where "s1 = s\<lparr>target_selector := sel, random_state := rnd\<rparr>"
  define s2 where "s2 = (if status d = VALID
                     then s1\<lparr>valid_examples := valid_examples s1 + 1\<rparr> else s1)"
  define s3 where "s3 = (if call_count s2 mod CACHE_RESET_FREQUENCY = 0
                        \<and> interesting_examples s2 = []
                     then reset_tree_to_empty s2 else s2)"
  have "tree s2 = tree s" "dead s2 = dead s" by (simp_all add: s2_def s1_def)
  then have "leaves_dead s2" using assms(1) by (simp add: leaves_dead_def)
  then have l3: "leaves_dead s3" using leaves_dead_init by (simp add: s3_def)
  have "record_result d s = (case update_tree d s3 of
      Inl e \<Rightarrow> Inl e | Inr s4 \<Rightarrow> Inr (update_interesting d s4))"
    by (simp add: record_result_def a Let_def s3_def s2_def s1_def)
  with assms(2) obtain s4 where u: "update_tree d s3 = Inr s4"
    and s': "s' = update_interesting d s4"
    by (auto split: sum.splits)
  show ?thesis
    using update_tree_leaves_dead [OF l3 u] s'
    by (simp add: leaves_dead_def update_interesting_tree)
qed

lemma record_for_health_check_dead:
  "record_for_health_check d s = Inr s' \<Longrightarrow> dead s' = dead s"
  by (auto simp: record_for_health_check_def Let_def
      split: if_splits option.splits sum.splits)

lemma test_function_leaves_dead:
  assumes "leaves_dead s" and "test_function clk d s = Inr (out, s')"
  shows "leaves_dead s'"
  using assms(2)
proof (cases rule: test_function_cases)
  case (1 s1 reason)
  have "leaves_dead (s\<lparr>call_count := call_count s + 1\<rparr>)"
    using assms(1) by (simp add: leaves_dead_def)
  from record_result_leaves_dead [OF this 1(1)] 1(4) show ?thesis
    by (simp add: leaves_dead_def)
next
  case (2 s1)
  have "leaves_dead (s\<lparr>call_count := call_count s + 1\<rparr>)"
    using assms(1) by (simp add: leaves_dead_def)
  from record_result_leaves_dead [OF this 2(1)] record_for_health_check_tree [OF 2(4)]
    record_for_health_check_dead [OF 2(4)]
  show ?thesis by (simp add: leaves_dead_def)
qed

lemma reachable_leaves_dead: "reachable s \<Longrightarrow> leaves_dead s"
proof (induction rule: reachable.induct)
  case (init st rnd key now)
  show ?case using leaves_dead_init by (simp add: ConjectureRunner_def)
next
  case (call s clk d out s')
  then show ?case using test_function_leaves_dead by blast
next
  case (novel_prefix s p s')
  then show ?case
    by (auto simp: generate_novel_prefix_def leaves_dead_def split: sum.splits)
qed (simp_all add: leaves_dead_def)

lemma prescreen_dead: "n \<in> dead s \<Longrightarrow> prescreen_from s len k n bs = Inr False"
  by (cases bs) simp_all

lemma lookup_hit_prescreen:
  "leaves_dead s \<Longrightarrow> cached_lookup_from s n bs = Inr (Some d)
   \<Longrightarrow> prescreen_from s len k n bs = Inr False"
proof (induction bs arbitrary: n k)
  case Nil
  then show ?case by simp
next
  case (Cons c cs)
  let ?c = "rewrite_byte s n c"
  from Cons.prems(2) obtain n' where ch: "tree_child s n ?c = Inr n'"
    by (auto simp: Let_def split: if_splits sum.splits)
  from Cons.prems(2) ch have n': "n' < length (tree s)"
    by (auto simp: Let_def split: if_splits)
  have nxt: "prescreen_from s len (k + 1) n' cs = Inr False"
  proof (cases "tree s ! n'")
    case (Leaf d')
    then have "n' \<in> dead s" using Cons.prems(1) n' by (auto simp: leaves_dead_def)
    then show ?thesis by (rule prescreen_dead)
  next
    case (Branch ch')
    then have "cached_lookup_from s n' cs = Inr (Some d)"
      using Cons.prems(2) ch n' by (simp add: Let_def)
    from Cons.IH [OF Cons.prems(1) this] show ?thesis .
  qed
  show ?case using ch nxt by (simp add: Let_def)
qed

lemma lookup_total:
  "tree_paths path (tree s) \<Longrightarrow> n < length (tree s) \<Longrightarrow> tree s ! n = Branch children
   \<Longrightarrow> \<exists>r. cached_lookup_from s n bs = Inr r"
proof (induction bs arbitrary: n children)
  case Nil
  then show ?case by simp
next
  case (Cons c cs)
  let ?c = "rewrite_byte s n c"
  have tn: "tree_node s n = Inr children"
    using Cons.prems by (simp add: tree_node_def)
  show ?case
  proof (cases "children ?c")
    case None
    then have "tree_child s n ?c = Inl KeyError" using tn by (simp add: tree_child_def)
    then show ?thesis by simp
  next
    case (Some n')
    then have ch: "tree_child s n ?c = Inr n'" using tn by (simp add: tree_child_def)
    have n': "n' < length (tree s)"
      using Cons.prems Some unfolding tree_paths_def by blast
    show ?thesis
    proof (cases "tree s ! n'")
      case (Leaf d')
      then show ?thesis using ch n' by (simp add: Let_def)
    next
      case (Branch ch')
      from Cons.IH [OF Cons.prems(1) n' Branch] show ?thesis
        using ch n' Branch by (simp add: Let_def)
    qed
  qed
qed

lemma tree_walk_call_count:
  "tree_walk d i bs n idx s = Inr (n', idx', s') \<Longrightarrow> call_count s' = call_count s"
proof (induction bs arbitrary: i n idx s)
  case Nil
  then show ?case by simp
next
  case (Cons b bs)
  have "call_count (note_position d i b n s) = call_count s"
    by (simp add: note_position_def Let_def split: option.splits)
  moreover have "\<And>k s1 s2. descend b n s1 = Inr (k, s2) \<Longrightarrow> call_count s2 = call_count s1"
    by (auto simp: descend_def Let_def split: sum.splits option.splits if_splits)
  ultimately show ?case
    using Cons.prems
    by (auto split: sum.splits if_splits dest!: Cons.IH)
qed

lemma record_block_sizes_call_count:
  "call_count (record_block_sizes bounds idx s) = call_count s"
  by (induction bounds idx s rule: record_block_sizes.induct) auto

lemma mark_dead_call_count:
  "mark_dead js s = Inr s' \<Longrightarrow> call_count s' = call_count s"
proof (induction js arbitrary: s)
  case Nil
  then show ?case by simp
next
  case (Cons j js)
  show ?case
    using Cons.prems
    by (auto simp: Let_def split: sum.splits if_splits dest!: Cons.IH)
qed

lemma update_tree_call_count:
  "update_tree d s = Inr s' \<Longrightarrow> call_count s' = call_count s"
  by (auto simp: update_tree_def Let_def record_block_sizes_call_count
      split: sum.splits prod.splits if_splits
      dest!: tree_walk_call_count mark_dead_call_count)

lemma update_interesting_call_count:
  "call_count (update_interesting d s) = call_count s"
  by (simp add: update_interesting_def Let_def split: option.splits)

lemma record_result_call_count:
  "record_result d s = Inr s' \<Longrightarrow> call_count s' = call_count s"
  by (auto simp: record_result_def Let_def update_interesting_call_count
      reset_tree_to_empty_def
      split: sum.splits prod.splits if_splits dest!: update_tree_call_count)

lemma test_function_call_count:
  assumes "test_function clk d s = Inr (out, s')"
  shows "call_count s' = call_count s + 1"
  using assms
proof (cases rule: test_function_cases)
  case (1 s1 reason)
  then show ?thesis using record_result_call_count [OF 1(1)] by simp
next
  case (2 s1)
  then show ?thesis
    using record_result_call_count [OF 2(1)] record_for_health_check_frame [OF 2(4)]
    by simp
qed

lemma replay_call_count:
  assumes "replay env b s = Inr (out, s')"
  shows "call_count s' = call_count s + 1"
  using assms
  by (auto simp: replay_def Let_def split: sum.splits prod.splits outcome.splits
      dest!: test_function_call_count)


lemma ex_exhausted_state_reached:
  "test_function ex_clock ex_empty_valid ex_interesting_state
     = Inr (RunIsComplete, ex_exhausted_state)"
  by (simp add: runner_defs ex_settings_def ex_clock_def ex_interesting_def
      ex_empty_valid_def ex_interesting_state_def ex_exhausted_state_def exit_with_def
      Let_def insert_commute)

lemma ex_exhausted_state_reachable: "reachable ex_exhausted_state"
  using reachable.call [OF ex_interesting_state_reachable ex_exhausted_state_reached] .

text \<open>
  Claim C3, amended. In every state that the runner reaches and for every buffer \<open>b\<close>:
  if a stored leaf lies on the walk over \<open>b\<close>, then \<open>prescreen_buffer(b)\<close> returns
  false and \<open>cached_test_function(b)\<close> returns that leaf without invoking the test
  function, the state being left as it was. If no stored leaf lies on the walk and the
  root of the tree is a branch (or \<open>b\<close> is empty), \<open>cached_test_function(b)\<close> invokes
  the test function on \<open>b\<close>, whatever \<open>prescreen_buffer(b)\<close> returned; so it does when
  \<open>prescreen_buffer(b)\<close> returns true. When the root of the tree is itself a leaf and
  \<open>b\<close> is not empty, \<open>prescreen_buffer(b)\<close> returns false and
  \<open>cached_test_function(b)\<close> raises a TypeError without invoking the test function.
  Every invocation of the test function that does not raise is counted in
  \<open>call_count\<close>.
\<close>

theorem prescreen_false_cached:
  assumes "reachable s"
  shows "(leaf_on_walk s b d \<longrightarrow>
            prescreen_buffer s b = Inr False
            \<and> cached_test_function env b s = Inr (Returned d, s))
       \<and> ((\<forall>d'. \<not> leaf_on_walk s b d') \<and> (b = [] \<or> (\<exists>children. tree s ! 0 = Branch children))
            \<longrightarrow> cached_test_function env b s = replay env b s)
       \<and> (prescreen_buffer s b = Inr True \<longrightarrow>
            (\<forall>d'. \<not> leaf_on_walk s b d') \<and> cached_test_function env b s = replay env b s)
       \<and> ((\<exists>d0. tree s ! 0 = Leaf d0) \<and> b \<noteq> [] \<longrightarrow>
            prescreen_buffer s b = Inr False \<and> cached_test_function env b s = Inl TypeError)
       \<and> (replay env b s = Inr (out, s') \<longrightarrow> call_count s' = call_count s + 1)"
proof -
  from reachable_tree_ok [OF assms] obtain path where tp: "tree_paths path (tree s)"
    by (auto simp: tree_ok_def)
  then have root: "0 < length (tree s)" by (simp add: tree_paths_def)
  have ld: "leaves_dead s" using assms by (rule reachable_leaves_dead)
  have hit: "leaf_on_walk s b d \<longrightarrow>
      prescreen_buffer s b = Inr False \<and> cached_test_function env b s = Inr (Returned d, s)"
  proof
    assume "leaf_on_walk s b d"
    then have l: "cached_lookup s b = Inr (Some d)" by (simp add: lookup_iff_leaf_on_walk)
    then have "prescreen_buffer s b = Inr False"
      using lookup_hit_prescreen [OF ld, of 0 b d "length b" 0]
      by (simp add: cached_lookup_def prescreen_buffer_def)
    then show "prescreen_buffer s b = Inr False
        \<and> cached_test_function env b s = Inr (Returned d, s)"
      using l by (simp add: cached_test_function_def)
  qed
  have miss: "(\<forall>d'. \<not> leaf_on_walk s b d') \<and> (b = [] \<or> (\<exists>children. tree s ! 0 = Branch children))
      \<longrightarrow> cached_test_function env b s = replay env b s"
  proof
    assume a: "(\<forall>d'. \<not> leaf_on_walk s b d')
        \<and> (b = [] \<or> (\<exists>children. tree s ! 0 = Branch children))"
    have "\<exists>r. cached_lookup s b = Inr r"
    proof (cases "b = []")
      case True
      then show ?thesis by (simp add: cached_lookup_def)
    next
      case False
      then obtain children where "tree s ! 0 = Branch children" using a by auto
      from lookup_total [OF tp root this] show ?thesis by (simp add: cached_lookup_def)
    qed
    then obtain r where r: "cached_lookup s b = Inr r" by auto
    have "r = None"
    proof (cases r)
      case None
      then show ?thesis .
    next
      case (Some d')
      then have "leaf_on_walk s b d'" using r by (simp add: lookup_iff_leaf_on_walk)
      then show ?thesis using a by simp
    qed
    then show "cached_test_function env b s = replay env b s"
      using r by (simp add: cached_test_function_def)
  qed
  have pass: "prescreen_buffer s b = Inr True \<longrightarrow>
      (\<forall>d'. \<not> leaf_on_walk s b d') \<and> cached_test_function env b s = replay env b s"
  proof
    assume t: "prescreen_buffer s b = Inr True"
    then have "cached_lookup s b = Inr None"
      using prescreen_True_lookup [of s "length b" 0 0 b]
      by (simp add: prescreen_buffer_def cached_lookup_def)
    then show "(\<forall>d'. \<not> leaf_on_walk s b d')
        \<and> cached_test_function env b s = replay env b s"
      using lookup_iff_leaf_on_walk [of s b] by (simp add: cached_test_function_def)
  qed
  have leaf_root: "(\<exists>d0. tree s ! 0 = Leaf d0) \<and> b \<noteq> [] \<longrightarrow>
      prescreen_buffer s b = Inr False \<and> cached_test_function env b s = Inl TypeError"
  proof
    assume a: "(\<exists>d0. tree s ! 0 = Leaf d0) \<and> b \<noteq> []"
    then obtain d0 c cs where d0: "tree s ! 0 = Leaf d0" and b: "b = c # cs"
      by (cases b) auto
    have "0 \<in> dead s" using ld root d0 by (auto simp: leaves_dead_def)
    then have "prescreen_buffer s b = Inr False"
      by (simp add: prescreen_buffer_def prescreen_dead)
    moreover have "cached_lookup s b = Inl TypeError"
      using d0 root b by (simp add: cached_lookup_def tree_child_def tree_node_def)
    ultimately show "prescreen_buffer s b = Inr False
        \<and> cached_test_function env b s = Inl TypeError"
      by (simp add: cached_test_function_def)
  qed
  have counted: "replay env b s = Inr (out, s') \<longrightarrow> call_count s' = call_count s + 1"
    using replay_call_count by blast
  show ?thesis using hit miss pass leaf_root counted by blast
qed

theorem prescreen_false_cached_witness:
  "reachable ex_forced_state
   \<and> leaf_on_walk ex_forced_state [1, 7] ex_forced_data
   \<and> prescreen_buffer ex_forced_state [1, 7] = Inr False
   \<and> cached_test_function ex_environment [1, 7] ex_forced_state
       = Inr (Returned ex_forced_data, ex_forced_state)
   \<and> (\<forall>d'. \<not> leaf_on_walk ex_forced_state [1] d')
   \<and> tree ex_forced_state ! 0 = Branch [1 \<mapsto> 1]
   \<and> prescreen_buffer ex_forced_state [1] = Inr False
   \<and> cached_test_function ex_environment [1] ex_forced_state
       = replay ex_environment [1] ex_forced_state
   \<and> replay ex_environment [1] ex_forced_state
       = Inr (Returned (ex_overrun [1]), ex_forced_state\<lparr>call_count := 2\<rparr>)
   \<and> call_count (ex_forced_state\<lparr>call_count := 2\<rparr>) = call_count ex_forced_state + 1
   \<and> prescreen_buffer ex_forced_state [3] = Inr True
   \<and> (\<forall>d'. \<not> leaf_on_walk ex_forced_state [3] d')
   \<and> cached_test_function ex_environment [3] ex_forced_state
       = replay ex_environment [3] ex_forced_state
   \<and> reachable ex_exhausted_state
   \<and> tree ex_exhausted_state ! 0 = Leaf ex_empty_valid
   \<and> prescreen_buffer ex_exhausted_state [2] = Inr False
   \<and> cached_test_function ex_environment [2] ex_exhausted_state = Inl TypeError"
proof -
  have l17: "leaf_on_walk ex_forced_state [1, 7] ex_forced_data"
    using lookup_iff_leaf_on_walk [of ex_forced_state "[1, 7]" ex_forced_data]
    by (simp add: lookup_defs ex_forced_state_tree)
  have l1: "\<forall>d'. \<not> leaf_on_walk ex_forced_state [1] d'"
    using lookup_iff_leaf_on_walk [of ex_forced_state "[1]"]
    by (simp add: lookup_defs ex_forced_state_tree)
  have root: "tree ex_forced_state ! 0 = Branch [1 \<mapsto> 1]"
    by (simp add: ex_forced_state_tree)
  have p1: "prescreen_buffer ex_forced_state [1] = Inr False"
    by (simp add: lookup_defs ex_forced_state_tree)
  have r1: "replay ex_environment [1] ex_forced_state
      = Inr (Returned (ex_overrun [1]), ex_forced_state\<lparr>call_count := 2\<rparr>)"
    by (simp add: replay_def ex_environment_def runner_defs ex_settings_def ex_clock_def
        ex_overrun_def ex_forced_state_def ex_forced_data_def Let_def)
  have p3: "prescreen_buffer ex_forced_state [3] = Inr True"
    by (simp add: lookup_defs ex_forced_state_tree)
  have leaf: "tree ex_exhausted_state ! 0 = Leaf ex_empty_valid"
    by (simp add: ex_exhausted_state_def runner_defs)
  have ne: "[2 :: byte] \<noteq> []" by simp
  note a = prescreen_false_cached [OF ex_forced_state_reachable,
      of "[1, 7]" ex_forced_data ex_environment]
  note b = prescreen_false_cached [OF ex_forced_state_reachable,
      of "[1]" _ ex_environment "Returned (ex_overrun [1])"
        "ex_forced_state\<lparr>call_count := 2\<rparr>"]
  note c = prescreen_false_cached [OF ex_forced_state_reachable,
      of "[3]" _ ex_environment]
  note e = prescreen_false_cached [OF ex_exhausted_state_reachable,
      of "[2]" _ ex_environment]
  have A: "prescreen_buffer ex_forced_state [1, 7] = Inr False
      \<and> cached_test_function ex_environment [1, 7] ex_forced_state
          = Inr (Returned ex_forced_data, ex_forced_state)"
    using a l17 by blast
  have B: "cached_test_function ex_environment [1] ex_forced_state
        = replay ex_environment [1] ex_forced_state"
    using b l1 root by blast
  have B': "call_count (ex_forced_state\<lparr>call_count := 2\<rparr>) = call_count ex_forced_state + 1"
    using b r1 by blast
  have C: "(\<forall>d'. \<not> leaf_on_walk ex_forced_state [3] d')
      \<and> cached_test_function ex_environment [3] ex_forced_state
          = replay ex_environment [3] ex_forced_state"
    using c p3 by blast
  have E: "prescreen_buffer ex_exhausted_state [2] = Inr False
      \<and> cached_test_function ex_environment [2] ex_exhausted_state = Inl TypeError"
    using e leaf ne by blast
  show ?thesis
    using ex_forced_state_reachable ex_exhausted_state_reachable l17 l1 root p1 r1 p3 leaf
      A B B' C E
    by blast
qed

section \<open>A live root without a novel prefix\<close>

text \<open>
  Claim C1: in every state of the tree in which the root is not dead,
  \<open>generate_novel_prefix()\<close> returns a byte sequence whose last byte leads to a
  child that is missing from the tree. The docstring of the function says the same:
  it assumes that a novel prefix is left whenever the run has not stopped for an
  exhausted tree. The code does not keep that promise. In the state below, which the
  runner reaches with one call of \<open>test_function\<close>, the root is not dead; with a random
  generator whose first draw is 0 the loop goes from the root to node 1, whose byte is
  forced, and from there to node 2, and in the third round
  \<open>assert len(prefix) < self.cap\<close> fails (the cap is 2). Node 2 is dead as well:
  the nodes from the cap on are marked dead without their parents being looked at, the
  loop over \<open>reversed(indices)\<close> running only when a result is stored.
\<close>

theorem novel_prefix_assertion_fails:
  "test_function ex_clock ex_long_overrun (ConjectureRunner ex_settings (\<lambda>i. 0) None 0)
     = Inr (Returned (), ex_overrun_state)
   \<and> reachable ex_overrun_state
   \<and> 0 \<notin> dead ex_overrun_state
   \<and> novel_round ex_overrun_state (\<lambda>i. 0) [] 0 = Descend [0] 1 (\<lambda>i. 0)
   \<and> novel_round ex_overrun_state (\<lambda>i. 0) [0] 1 = Descend [0, 0] 2 (\<lambda>i. 0)
   \<and> novel_round ex_overrun_state (\<lambda>i. 0) [0, 0] 2 = Raise AssertionError
   \<and> generate_novel_prefix ex_overrun_state = Inl AssertionError"
proof -
  have call: "test_function ex_clock ex_long_overrun
      (ConjectureRunner ex_settings (\<lambda>i. 0) None 0) = Inr (Returned (), ex_overrun_state)"
    by (simp add: runner_defs ex_settings_def ex_clock_def ex_long_overrun_def
        ex_overrun_state_def Let_def) (simp add: eval_nat_numeral)
  have fields: "tree ex_overrun_state = [Branch [0 \<mapsto> 1], Branch [0 \<mapsto> 2],
        Branch [0 \<mapsto> 3], Branch [0 \<mapsto> 4], Branch Map.empty]"
    "dead ex_overrun_state = {2, 3}" "forced ex_overrun_state = [1 \<mapsto> 0]"
    "masks ex_overrun_state = Map.empty" "cap ex_overrun_state = 2"
    "random_state ex_overrun_state = (\<lambda>i. 0)"
    by (simp_all add: ex_overrun_state_def runner_defs ex_settings_def)
  have r1: "novel_round ex_overrun_state (\<lambda>i. 0) [] 0 = Descend [0] 1 (\<lambda>i. 0)"
    by (simp add: novel_round_def draw_unforced_def randrange_def tree_child_int_def
        tree_node_def int_key_def append_descend_def is_simple_mask_def rng_tail_def fields)
  have r2: "novel_round ex_overrun_state (\<lambda>i. 0) [0] 1 = Descend [0, 0] 2 (\<lambda>i. 0)"
    by (simp add: novel_round_def tree_child_def tree_node_def is_simple_mask_def fields)
  have r3: "novel_round ex_overrun_state (\<lambda>i. 0) [0, 0] 2 = Raise AssertionError"
    by (simp add: novel_round_def fields)
  have g3: "generate_novel_prefix_from ex_overrun_state (\<lambda>i. 0) [0, 0] 2 = Inl AssertionError"
    by (subst generate_novel_prefix_from.simps) (simp only: r3 novel.case)
  have g2: "generate_novel_prefix_from ex_overrun_state (\<lambda>i. 0) [0] 1 = Inl AssertionError"
    by (subst generate_novel_prefix_from.simps) (simp only: r2 g3 novel.case)
  have g1: "generate_novel_prefix_from ex_overrun_state (\<lambda>i. 0) [] 0 = Inl AssertionError"
    by (subst generate_novel_prefix_from.simps) (simp only: r1 g2 novel.case)
  have g: "generate_novel_prefix ex_overrun_state = Inl AssertionError"
    by (simp only: generate_novel_prefix_def fields g1 sum.case)
  have live: "0 \<notin> dead ex_overrun_state" by (simp add: fields)
  show ?thesis
    using call reachable.call [OF reachable.init call] live r1 r2 r3 g by blast
qed

end
